theory Spec2Isabelle
  imports Main "HOL-Library.Sublist" "HOL-Library.Multiset"
begin

section \<open>Data model\<close>

text \<open>
  The chat server of \<^verbatim>\<open>socketServer/main.go\<close>. A \<^verbatim>\<open>net.Conn\<close> is an opaque endpoint that
  the code only compares, writes to and closes; it is modelled by its identity. A
  \<^verbatim>\<open>Client\<close> keeps its connection and its nickname (the back pointer to the one server is
  left out). The registry \<^verbatim>\<open>Server.clients\<close> is a Go map from connections to clients.
\<close>

type_synonym Conn = nat

record Client =
  conn :: Conn
  nickname :: string

text \<open>
  What the server does to the outside is recorded as a list of events, oldest first: the
  bytes handed to \<^verbatim>\<open>conn.Write\<close>, the lines printed on standard output, the goroutine that
  \<^verbatim>\<open>kickClient\<close> starts to close a connection, and the deferred \<^verbatim>\<open>conn.Close\<close> of a session.
\<close>

datatype event =
  Write Conn string
| Printf string
| Go_Close Conn
| Close Conn

text \<open>
  The environment answers what the code asks of the outside: whether a write on a
  connection fails (\<open>None\<close> is success, \<open>Some e\<close> the text of the error), the wall clock
  already formatted as \<^verbatim>\<open>15:04:05\<close>, and the text of a connection's remote address.
\<close>

record Env =
  writeErr :: "Conn \<Rightarrow> string option"
  clock :: string
  remoteAddr :: "Conn \<Rightarrow> string"

text \<open>
  Go leaves the order in which \<^verbatim>\<open>range\<close> visits a map unspecified, and it may differ from
  one loop to the next over the same map. The state therefore carries, besides the map,
  the orders that the runtime will pick for the coming \<^verbatim>\<open>range\<close> loops; each loop takes
  the next one. The mutex is not modelled: every operation below runs alone.
\<close>

record World =
  clients :: "Conn \<rightharpoonup> Client"
  ords :: "Conn list list"
  out :: "event list"

definition rangeOrder :: "World \<Rightarrow> Conn list \<times> World" where
  "rangeOrder w = (case ords w of [] \<Rightarrow> ([], w) | ord # rest \<Rightarrow> (ord, w\<lparr>ords := rest\<rparr>))"

text \<open>An order is one that \<^verbatim>\<open>range\<close> can take on a map when it lists each key once.\<close>

definition enumerates :: "Conn list \<Rightarrow> (Conn \<rightharpoonup> Client) \<Rightarrow> bool" where
  "enumerates ord m = (distinct ord \<and> set ord = dom m)"

text \<open>
  Every entry is stored under its own connection (\<^verbatim>\<open>addClient\<close> is the only insertion),
  and a Go map has finitely many entries.
\<close>

definition registry_ok :: "(Conn \<rightharpoonup> Client) \<Rightarrow> bool" where
  "registry_ok m = (finite (dom m) \<and> (\<forall>k \<in> dom m. \<forall>c. m k = Some c \<longrightarrow> conn c = k))"

section \<open>Library functions\<close>

text \<open>\<^verbatim>\<open>strings.HasPrefix(s, prefix)\<close>.\<close>

definition HasPrefix :: "string \<Rightarrow> string \<Rightarrow> bool" where
  "HasPrefix s p = (take (length p) s = p)"

text \<open>
  \<^verbatim>\<open>strings.SplitN(s, sep, n)\<close> for a separator of one byte and \<open>n \<ge> 0\<close>: at most \<open>n\<close>
  pieces, the last one the unsplit remainder.
\<close>

fun SplitN :: "string \<Rightarrow> char \<Rightarrow> nat \<Rightarrow> string list" where
  "SplitN s sep 0 = []"
| "SplitN s sep (Suc 0) = [s]"
| "SplitN s sep (Suc (Suc n)) =
     (if sep \<in> set s
      then takeWhile (\<lambda>c. c \<noteq> sep) s # SplitN (drop 1 (dropWhile (\<lambda>c. c \<noteq> sep) s)) sep (Suc n)
      else [s])"

text \<open>
  \<^verbatim>\<open>strings.TrimSpace\<close> removes the leading and the trailing white space of a string, as
  \<^verbatim>\<open>unicode.IsSpace\<close> defines it on the decoded code points. A code point is white space
  exactly when its bytes are one of the encodings below (Go decodes no other byte
  sequence, overlong or broken, to one of these code points), so the function is
  modelled on the bytes.
\<close>

definition spaceRunes :: "string list" where
  "spaceRunes =
    [[CHR 0x09], [CHR 0x0A], [CHR 0x0B], [CHR 0x0C], [CHR 0x0D], [CHR 0x20],
     [CHR 0xC2, CHR 0x85], [CHR 0xC2, CHR 0xA0],
     [CHR 0xE1, CHR 0x9A, CHR 0x80],
     [CHR 0xE2, CHR 0x80, CHR 0x80], [CHR 0xE2, CHR 0x80, CHR 0x81],
     [CHR 0xE2, CHR 0x80, CHR 0x82], [CHR 0xE2, CHR 0x80, CHR 0x83],
     [CHR 0xE2, CHR 0x80, CHR 0x84], [CHR 0xE2, CHR 0x80, CHR 0x85],
     [CHR 0xE2, CHR 0x80, CHR 0x86], [CHR 0xE2, CHR 0x80, CHR 0x87],
     [CHR 0xE2, CHR 0x80, CHR 0x88], [CHR 0xE2, CHR 0x80, CHR 0x89],
     [CHR 0xE2, CHR 0x80, CHR 0x8A],
     [CHR 0xE2, CHR 0x80, CHR 0xA8], [CHR 0xE2, CHR 0x80, CHR 0xA9],
     [CHR 0xE2, CHR 0x80, CHR 0xAF], [CHR 0xE2, CHR 0x81, CHR 0x9F],
     [CHR 0xE3, CHR 0x80, CHR 0x80]]"

text \<open>The width in bytes of the white space at the head (at the end) of a string, 0 if none.\<close>

definition leadingSpace :: "string \<Rightarrow> nat" where
  "leadingSpace s = (case find (\<lambda>e. prefix e s) spaceRunes of None \<Rightarrow> 0 | Some e \<Rightarrow> length e)"

definition trailingSpace :: "string \<Rightarrow> nat" where
  "trailingSpace s = (case find (\<lambda>e. suffix e s) spaceRunes of None \<Rightarrow> 0 | Some e \<Rightarrow> length e)"

function TrimLeft :: "string \<Rightarrow> string" where
  "TrimLeft s = (if leadingSpace s = 0 then s else TrimLeft (drop (leadingSpace s) s))"
  by pat_completeness auto
termination
proof (relation "measure length")
  show "wf (measure length)" by simp
next
  fix s :: string
  assume "leadingSpace s \<noteq> 0"
  moreover have "leadingSpace s \<le> length s"
    by (auto simp: leadingSpace_def prefix_length_le split: option.splits
        dest!: find_Some_iff[THEN iffD1])
  ultimately show "(drop (leadingSpace s) s, s) \<in> measure length" by simp
qed

function TrimRight :: "string \<Rightarrow> string" where
  "TrimRight s = (if trailingSpace s = 0 then s else TrimRight (take (length s - trailingSpace s) s))"
  by pat_completeness auto
termination
proof (relation "measure length")
  show "wf (measure length)" by simp
next
  fix s :: string
  assume "trailingSpace s \<noteq> 0"
  moreover have "trailingSpace s \<le> length s"
    by (auto simp: trailingSpace_def suffix_length_le split: option.splits
        dest!: find_Some_iff[THEN iffD1])
  ultimately show "(take (length s - trailingSpace s) s, s) \<in> measure length" by simp
qed

declare TrimLeft.simps [simp del] TrimRight.simps [simp del]

definition TrimSpace :: "string \<Rightarrow> string" where
  "TrimSpace s = TrimRight (TrimLeft s)"

text \<open>\<^verbatim>\<open>fmt.Sprintf("%d", n)\<close> for a length: the decimal digits of \<open>n\<close>.\<close>

definition digit :: "nat \<Rightarrow> char" where
  "digit d = ''0123456789'' ! d"

fun itoa :: "nat \<Rightarrow> string" where
  "itoa n = (if n < 10 then [digit n] else itoa (n div 10) @ [digit (n mod 10)])"

declare itoa.simps [simp del]

section \<open>The server\<close>

definition printf :: "string \<Rightarrow> World \<Rightarrow> World" where
  "printf line w = w\<lparr>out := out w @ [Printf line]\<rparr>"

text \<open>
  \<^verbatim>\<open>Client.send\<close>: one write of the message and a newline on the client's connection; a
  failed write is reported on standard output and nothing else happens.
\<close>

definition sendEvents :: "Env \<Rightarrow> Client \<Rightarrow> string \<Rightarrow> event list" where
  "sendEvents env c message =
     Write (conn c) (message @ ''\<newline>'') #
     (case writeErr env (conn c) of
        None \<Rightarrow> []
      | Some err \<Rightarrow> [Printf (''Error sending message to '' @ nickname c @ '': '' @ err @ ''\<newline>'')])"

definition send :: "Env \<Rightarrow> Client \<Rightarrow> string \<Rightarrow> World \<Rightarrow> World" where
  "send env c message w = w\<lparr>out := out w @ sendEvents env c message\<rparr>"

definition addClient :: "Client \<Rightarrow> World \<Rightarrow> World" where
  "addClient client w = w\<lparr>clients := (clients w)(conn client \<mapsto> client)\<rparr>"

definition removeClient :: "Client \<Rightarrow> World \<Rightarrow> World" where
  "removeClient client w = w\<lparr>clients := (clients w)(conn client := None)\<rparr>"

text \<open>
  The loop of \<^verbatim>\<open>kickClient\<close> over the keys in the order of this \<^verbatim>\<open>range\<close>: the first
  client with the nickname is told, deleted and closed in a goroutine of its own, and the
  function returns at once.
\<close>

fun kickLoop :: "Env \<Rightarrow> Conn list \<Rightarrow> string \<Rightarrow> World \<Rightarrow> bool \<times> World" where
  "kickLoop env [] nick w = (False, w)"
| "kickLoop env (k # ks) nick w =
     (case clients w k of
        None \<Rightarrow> kickLoop env ks nick w
      | Some client \<Rightarrow>
          if nickname client = nick
          then (let w1 = send env client ''You have been kicked!'' w;
                    w2 = w1\<lparr>clients := (clients w1)(k := None)\<rparr>;
                    w3 = w2\<lparr>out := out w2 @ [Go_Close k]\<rparr>
                in (True, w3))
          else kickLoop env ks nick w)"

definition kickClient :: "Env \<Rightarrow> string \<Rightarrow> World \<Rightarrow> bool \<times> World" where
  "kickClient env nick w = (let (ord, w') = rangeOrder w in kickLoop env ord nick w')"

fun broadcastLoop :: "Env \<Rightarrow> Conn list \<Rightarrow> string \<Rightarrow> Client option \<Rightarrow> World \<Rightarrow> World" where
  "broadcastLoop env [] message sender w = w"
| "broadcastLoop env (k # ks) message sender w =
     (case clients w k of
        None \<Rightarrow> broadcastLoop env ks message sender w
      | Some client \<Rightarrow>
          if (case sender of None \<Rightarrow> False | Some s \<Rightarrow> k = conn s)
          then broadcastLoop env ks message sender w
          else broadcastLoop env ks message sender (send env client message w))"

definition broadcast :: "Env \<Rightarrow> string \<Rightarrow> Client option \<Rightarrow> World \<Rightarrow> World" where
  "broadcast env message sender w =
     (let (ord, w') = rangeOrder w in broadcastLoop env ord message sender w')"

fun listLoop :: "(Conn \<rightharpoonup> Client) \<Rightarrow> Conn list \<Rightarrow> string \<Rightarrow> string" where
  "listLoop m [] result = result"
| "listLoop m (k # ks) result =
     (case m k of
        None \<Rightarrow> listLoop m ks result
      | Some client \<Rightarrow> listLoop m ks (result @ ''\<newline>- '' @ nickname client))"

definition getClientList :: "World \<Rightarrow> string \<times> World" where
  "getClientList w =
     (if card (dom (clients w)) = 0 then (''No clients connected'', w)
      else (let (ord, w') = rangeOrder w
            in (listLoop (clients w') ord
                  (''Connected clients ('' @ itoa (card (dom (clients w'))) @ ''):''), w')))"

definition handleKickClient :: "Env \<Rightarrow> string \<Rightarrow> Client \<Rightarrow> World \<Rightarrow> World" where
  "handleKickClient env message sender w =
     (let messageSplit = SplitN message CHR '' '' 2 in
      if length messageSplit \<noteq> 2 then send env sender ''Usage: /kick <nickname>'' w
      else (let targetNickname = messageSplit ! 1;
                (kicked, w1) = kickClient env targetNickname w
            in if kicked
               then broadcast env (targetNickname @ '' was kicked by '' @ nickname sender) None
                      (send env sender (''You have kicked '' @ targetNickname) w1)
               else w1))"

text \<open>
  \<^verbatim>\<open>handleClient\<close>, in the three parts of its body. The scanner is given by the lines it
  yields before \<^verbatim>\<open>Scan\<close> returns false (and it keeps returning false from then on).
  First the greeting, the nickname and the registration.
\<close>

definition handshake :: "Env \<Rightarrow> Conn \<Rightarrow> string list \<Rightarrow> World \<Rightarrow> Client \<times> World" where
  "handshake env c toks w =
     (let client0 = \<lparr>conn = c, nickname = ''''\<rparr>;
          w1 = send env client0 ''Welcome to the Go Socket Server!'' w;
          w2 = send env client0 ''Please enter your nickname:'' w1;
          client = (case toks of
                      [] \<Rightarrow> client0
                    | t # ts \<Rightarrow> (let n = TrimSpace t
                                 in client0\<lparr>nickname := (if n = '''' then ''Anonymous'' else n)\<rparr>));
          w3 = addClient client w2;
          w4 = broadcast env (nickname client @ '' joined the chat'') (Some client) w3;
          w5 = printf (''Client '' @ nickname client @ '' connected from '' @ remoteAddr env c
                       @ ''\<newline>'') w4
      in (client, w5))"

text \<open>The body of the message loop for one line: whether the loop goes on, and the new state.\<close>

datatype flow = Continue | Break

definition handleLine :: "Env \<Rightarrow> Client \<Rightarrow> string \<Rightarrow> World \<Rightarrow> flow \<times> World" where
  "handleLine env client t w =
     (let message = TrimSpace t in
      if message = '''' then (Continue, w)
      else if HasPrefix message ''/quit'' then (Break, w)
      else if HasPrefix message ''/list''
        then (let (l, w1) = getClientList w in (Continue, send env client l w1))
      else if HasPrefix message ''/time''
        then (Continue, send env client (''Server time: '' @ clock env) w)
      else if HasPrefix message ''/kick''
        then (Continue, handleKickClient env message client w)
      else (Continue, broadcast env (''['' @ nickname client @ '']: '' @ message) (Some client) w))"

fun messageLoop :: "Env \<Rightarrow> Client \<Rightarrow> string list \<Rightarrow> World \<Rightarrow> World" where
  "messageLoop env client [] w = w"
| "messageLoop env client (t # ts) w =
     (case handleLine env client t w of
        (Break, w1) \<Rightarrow> w1
      | (Continue, w1) \<Rightarrow> messageLoop env client ts w1)"

definition handleClient :: "Env \<Rightarrow> Conn \<Rightarrow> string list \<Rightarrow> World \<Rightarrow> World" where
  "handleClient env c toks w =
     (let (client, w1) = handshake env c toks w;
          w2 = messageLoop env client (drop 1 toks) w1;
          w3 = removeClient client w2;
          w4 = broadcast env (nickname client @ '' left the chat'') None w3;
          w5 = printf (''Client '' @ nickname client @ '' disconnected'' @ ''\<newline>'') w4
      in w5\<lparr>out := out w5 @ [Close c]\<rparr>)"

text \<open>The writes among the events, in order: the connection and the bytes of each.\<close>

fun writes :: "event list \<Rightarrow> (Conn \<times> string) list" where
  "writes [] = []"
| "writes (Write c b # es) = (c, b) # writes es"
| "writes (e # es) = writes es"

section \<open>Example data\<close>

text \<open>Two participants and an environment in which no write fails.\<close>

definition alice :: Client where
  "alice = \<lparr>conn = 1, nickname = ''Alice''\<rparr>"

definition bob :: Client where
  "bob = \<lparr>conn = 2, nickname = ''Bob''\<rparr>"

definition quiet :: Env where
  "quiet = \<lparr>writeErr = (\<lambda>c. None), clock = ''12:00:00'', remoteAddr = (\<lambda>c. ''10.0.0.1:5000'')\<rparr>"

definition carol :: Client where
  "carol = \<lparr>conn = 3, nickname = ''Carol''\<rparr>"

text \<open>An environment in which every write on connection 2 fails.\<close>

definition lossy :: Env where
  "lossy = \<lparr>writeErr = (\<lambda>c. if c = 2 then Some ''broken pipe'' else None),
             clock = ''12:00:00'', remoteAddr = (\<lambda>c. ''10.0.0.1:5000'')\<rparr>"

section \<open>Registry operations\<close>

lemma send_fields [simp]:
  "clients (send env c message w) = clients w"
  "ords (send env c message w) = ords w"
  "out (send env c message w) = out w @ sendEvents env c message"
  by (simp_all add: send_def)

lemma writes_append [simp]: "writes (xs @ ys) = writes xs @ writes ys"
  by (induction xs rule: writes.induct) simp_all

lemma writes_sendEvents [simp]:
  "writes (sendEvents env c message) = [(conn c, message @ ''\<newline>'')]"
  by (simp add: sendEvents_def split: option.splits)

text \<open>
  C7. Removing is idempotent. \<^verbatim>\<open>removeClient\<close> has no failing branch (Go's \<^verbatim>\<open>delete\<close> of an
  absent key does nothing): a second removal gives the state of the first, removing a
  connection that is absent (as after a kick took it out) leaves the whole state as it
  was, and in every case the entries of all other connections are untouched.
\<close>

theorem removeClient_idempotent:
  "removeClient c (removeClient c w) = removeClient c w
   \<and> (clients w (conn c) = None \<longrightarrow> removeClient c w = w)
   \<and> clients (removeClient c w) (conn c) = None
   \<and> (\<forall>k. k \<noteq> conn c \<longrightarrow> clients (removeClient c w) k = clients w k)
   \<and> ords (removeClient c w) = ords w \<and> out (removeClient c w) = out w"
  by (simp add: removeClient_def fun_upd_idem)

theorem removeClient_idempotent_witness:
  "clients \<lparr>clients = [2 \<mapsto> bob], ords = [], out = []\<rparr> (conn alice) = None
   \<and> removeClient alice \<lparr>clients = [2 \<mapsto> bob], ords = [], out = []\<rparr>
       = \<lparr>clients = [2 \<mapsto> bob], ords = [], out = []\<rparr>
   \<and> (2::nat) \<noteq> conn alice
   \<and> clients (removeClient alice \<lparr>clients = [2 \<mapsto> bob], ords = [], out = []\<rparr>) 2 = Some bob"
  using removeClient_idempotent [of alice "\<lparr>clients = [2 \<mapsto> bob], ords = [], out = []\<rparr>"]
  by (simp add: alice_def)

text \<open>
  C4, as the claim states it, fails: \<^verbatim>\<open>addClient\<close> assigns \<^verbatim>\<open>s.clients[client.conn] = client\<close>,
  and a Go map assignment replaces the value of a key that is present. Adding a client
  named Bob on connection 1, where Alice is registered, changes the registry.
\<close>

theorem addClient_overwrites:
  "clients \<lparr>clients = [1 \<mapsto> alice], ords = [], out = []\<rparr> (conn \<lparr>conn = 1, nickname = ''Bob''\<rparr>) \<noteq> None
   \<and> addClient \<lparr>conn = 1, nickname = ''Bob''\<rparr> \<lparr>clients = [1 \<mapsto> alice], ords = [], out = []\<rparr>
       \<noteq> \<lparr>clients = [1 \<mapsto> alice], ords = [], out = []\<rparr>"
proof -
  have "clients (addClient \<lparr>conn = 1, nickname = ''Bob''\<rparr> \<lparr>clients = [1 \<mapsto> alice], ords = [], out = []\<rparr>) 1
        \<noteq> clients \<lparr>clients = [1 \<mapsto> alice], ords = [], out = []\<rparr> 1"
    by (simp add: addClient_def alice_def)
  then show ?thesis by auto
qed

text \<open>
  C4, amended. \<^verbatim>\<open>addClient\<close> makes the participant the entry of its connection, inserting
  it when the key is absent and replacing the entry when the key is present; the entries
  of all other connections are untouched, and the registry is unchanged exactly when the
  entry stored under the key was this participant already.
\<close>

theorem addClient_stores:
  "clients (addClient p w) (conn p) = Some p
   \<and> (\<forall>k. k \<noteq> conn p \<longrightarrow> clients (addClient p w) k = clients w k)
   \<and> (addClient p w = w \<longleftrightarrow> clients w (conn p) = Some p)
   \<and> ords (addClient p w) = ords w \<and> out (addClient p w) = out w"
proof -
  have "addClient p w = w \<longleftrightarrow> clients w (conn p) = Some p"
  proof
    assume "addClient p w = w"
    then have "clients (addClient p w) (conn p) = clients w (conn p)" by simp
    then show "clients w (conn p) = Some p" by (simp add: addClient_def)
  next
    assume "clients w (conn p) = Some p"
    then have "(clients w)(conn p \<mapsto> p) = clients w" by (simp add: fun_upd_idem)
    then show "addClient p w = w" by (simp add: addClient_def)
  qed
  then show ?thesis by (simp add: addClient_def)
qed

theorem addClient_stores_witness:
  "(2::nat) \<noteq> conn \<lparr>conn = 1, nickname = ''Bob''\<rparr>
   \<and> clients (addClient \<lparr>conn = 1, nickname = ''Bob''\<rparr>
               \<lparr>clients = [1 \<mapsto> alice, 2 \<mapsto> bob], ords = [], out = []\<rparr>) 1
       = Some \<lparr>conn = 1, nickname = ''Bob''\<rparr>
   \<and> clients (addClient \<lparr>conn = 1, nickname = ''Bob''\<rparr>
               \<lparr>clients = [1 \<mapsto> alice, 2 \<mapsto> bob], ords = [], out = []\<rparr>) 2
       = Some bob"
  using addClient_stores [of "\<lparr>conn = 1, nickname = ''Bob''\<rparr>"
      "\<lparr>clients = [1 \<mapsto> alice, 2 \<mapsto> bob], ords = [], out = []\<rparr>"]
  by simp

section \<open>The kick command\<close>

lemma SplitN_2:
  "SplitN s sep 2 =
     (if sep \<in> set s then [takeWhile (\<lambda>c. c \<noteq> sep) s, drop 1 (dropWhile (\<lambda>c. c \<noteq> sep) s)]
      else [s])"
  by (simp add: numeral_2_eq_2)

lemma TrimSpace_kick: "TrimSpace ''/kick'' = ''/kick''"
  by code_simp

text \<open>
  C6. A line that is \<^verbatim>\<open>/kick\<close> once trimmed is dispatched to \<^verbatim>\<open>handleKickClient\<close>, which
  finds no argument: the only effect is one send of the usage line to the sender (the
  one write is the line \<^verbatim>\<open>Usage: /kick <nickname>\<close> on the sender's connection), the
  registry is the one before, and the message loop goes on.
\<close>

theorem kick_usage:
  assumes "TrimSpace t = ''/kick''"
  shows "handleLine env sender t w
           = (Continue, w\<lparr>out := out w @ sendEvents env sender ''Usage: /kick <nickname>''\<rparr>)
         \<and> clients (snd (handleLine env sender t w)) = clients w
         \<and> writes (out (snd (handleLine env sender t w)))
             = writes (out w) @ [(conn sender, ''Usage: /kick <nickname>\<newline>'')]"
  using assms
  by (simp add: handleLine_def HasPrefix_def handleKickClient_def SplitN_2 send_def)

theorem kick_usage_witness:
  "TrimSpace ''/kick'' = ''/kick''
   \<and> handleLine quiet alice ''/kick'' \<lparr>clients = [1 \<mapsto> alice, 2 \<mapsto> bob], ords = [[1, 2]], out = []\<rparr>
       = (Continue, \<lparr>clients = [1 \<mapsto> alice, 2 \<mapsto> bob], ords = [[1, 2]],
                      out = [Write 1 ''Usage: /kick <nickname>\<newline>'']\<rparr>)"
  using kick_usage [OF TrimSpace_kick, of quiet alice
      "\<lparr>clients = [1 \<mapsto> alice, 2 \<mapsto> bob], ords = [[1, 2]], out = []\<rparr>"] TrimSpace_kick
  by (simp add: sendEvents_def quiet_def alice_def)

text \<open>
  C3, as the claim states it, fails: \<^verbatim>\<open>handleKickClient\<close> splits with
  \<^verbatim>\<open>strings.SplitN(message, " ", 2)\<close>, at the first single space and at no other white
  space. After two spaces the target is \<^verbatim>\<open>" Bob"\<close>, not \<^verbatim>\<open>"Bob"\<close>: Bob stays registered and
  nothing is written. After a tab there is no split at all, and the sender gets the usage
  line although an argument follows the white space.
\<close>

theorem kick_first_space_only:
  "handleKickClient quiet ''/kick  Bob'' alice
       \<lparr>clients = [1 \<mapsto> alice, 2 \<mapsto> bob], ords = [[1, 2], [1]], out = []\<rparr>
     = \<lparr>clients = [1 \<mapsto> alice, 2 \<mapsto> bob], ords = [[1]], out = []\<rparr>
   \<and> handleKickClient quiet [CHR ''/'', CHR ''k'', CHR ''i'', CHR ''c'', CHR ''k'', CHR 0x09,
                               CHR ''B'', CHR ''o'', CHR ''b''] alice
       \<lparr>clients = [1 \<mapsto> alice, 2 \<mapsto> bob], ords = [[1, 2], [1]], out = []\<rparr>
     = \<lparr>clients = [1 \<mapsto> alice, 2 \<mapsto> bob], ords = [[1, 2], [1]],
        out = [Write 1 ''Usage: /kick <nickname>\<newline>'']\<rparr>"
  by (simp add: handleKickClient_def SplitN_2 kickClient_def rangeOrder_def send_def
      sendEvents_def quiet_def alice_def bob_def)

text \<open>
  C3, amended. The target nickname is the whole rest of the line after its first space
  character (the line is the part before that space, the space and the target); a line
  with no space gets the usage message and nothing else happens. Otherwise the target is
  kicked, and only on success the sender is answered and the notice is broadcast.
\<close>

theorem kick_argument:
  "(CHR '' '' \<notin> set message \<longrightarrow>
      handleKickClient env message sender w = send env sender ''Usage: /kick <nickname>'' w)
   \<and> (CHR '' '' \<in> set message \<longrightarrow>
        message = takeWhile (\<lambda>c. c \<noteq> CHR '' '') message @ '' ''
                  @ drop 1 (dropWhile (\<lambda>c. c \<noteq> CHR '' '') message)
        \<and> handleKickClient env message sender w =
          (let targetNickname = drop 1 (dropWhile (\<lambda>c. c \<noteq> CHR '' '') message);
               (kicked, w1) = kickClient env targetNickname w
           in if kicked
              then broadcast env (targetNickname @ '' was kicked by '' @ nickname sender) None
                     (send env sender (''You have kicked '' @ targetNickname) w1)
              else w1))"
proof -
  have "message = takeWhile (\<lambda>c. c \<noteq> CHR '' '') message @ '' ''
                  @ drop 1 (dropWhile (\<lambda>c. c \<noteq> CHR '' '') message)"
    if "CHR '' '' \<in> set message"
  proof -
    from that have "dropWhile (\<lambda>c. c \<noteq> CHR '' '') message \<noteq> []" by simp
    then obtain x xs where d: "dropWhile (\<lambda>c. c \<noteq> CHR '' '') message = x # xs"
      by (cases "dropWhile (\<lambda>c. c \<noteq> CHR '' '') message") auto
    then have "x = CHR '' ''" using hd_dropWhile[of "\<lambda>c. c \<noteq> CHR '' ''" message] by auto
    with d have "dropWhile (\<lambda>c. c \<noteq> CHR '' '') message
                 = '' '' @ drop 1 (dropWhile (\<lambda>c. c \<noteq> CHR '' '') message)" by simp
    then show ?thesis
      using takeWhile_dropWhile_id[of "\<lambda>c. c \<noteq> CHR '' ''" message] by metis
  qed
  then show ?thesis
    by (simp add: handleKickClient_def SplitN_2 Let_def)
qed

theorem kick_argument_witness:
  "CHR '' '' \<notin> set ''/kick''
   \<and> handleKickClient quiet ''/kick'' alice
         \<lparr>clients = [1 \<mapsto> alice, 2 \<mapsto> bob], ords = [[1, 2], [1]], out = []\<rparr>
       = \<lparr>clients = [1 \<mapsto> alice, 2 \<mapsto> bob], ords = [[1, 2], [1]],
          out = [Write 1 ''Usage: /kick <nickname>\<newline>'']\<rparr>
   \<and> CHR '' '' \<in> set ''/kick Bob''
   \<and> handleKickClient quiet ''/kick Bob'' alice
         \<lparr>clients = [1 \<mapsto> alice, 2 \<mapsto> bob], ords = [[1, 2], [1]], out = []\<rparr>
       = \<lparr>clients = [1 \<mapsto> alice], ords = [],
          out = [Write 2 ''You have been kicked!\<newline>'', Go_Close 2,
                 Write 1 ''You have kicked Bob\<newline>'',
                 Write 1 ''Bob was kicked by Alice\<newline>'']\<rparr>"
  using kick_argument [of "''/kick''" quiet alice
      "\<lparr>clients = [1 \<mapsto> alice, 2 \<mapsto> bob], ords = [[1, 2], [1]], out = []\<rparr>"]
    kick_argument [of "''/kick Bob''" quiet alice
      "\<lparr>clients = [1 \<mapsto> alice, 2 \<mapsto> bob], ords = [[1, 2], [1]], out = []\<rparr>"]
  by (simp add: kickClient_def broadcast_def rangeOrder_def send_def sendEvents_def
      quiet_def alice_def bob_def)

section \<open>Broadcast\<close>

lemma broadcastLoop_fields [simp]:
  "clients (broadcastLoop env ord message sender w) = clients w"
  "ords (broadcastLoop env ord message sender w) = ords w"
  by (induction ord arbitrary: w) (simp_all split: option.splits)

lemma broadcastLoop_count:
  assumes "distinct ord" and "\<forall>k c. clients w k = Some c \<longrightarrow> conn c = k"
  shows "count_list (writes (out (broadcastLoop env ord message sender w))) (k, b)
         = count_list (writes (out w)) (k, b)
           + (if k \<in> set ord \<and> k \<in> dom (clients w)
                 \<and> \<not> (case sender of None \<Rightarrow> False | Some s \<Rightarrow> k = conn s)
                 \<and> b = message @ ''\<newline>'' then 1 else 0)"
  using assms
proof (induction ord arbitrary: w)
  case Nil
  then show ?case by simp
next
  case (Cons a ord)
  show ?case
  proof (cases "clients w a")
    case None
    with Cons show ?thesis by (auto simp: dom_def)
  next
    case (Some client)
    with Cons.prems have ca: "conn client = a" by simp
    show ?thesis
    proof (cases "case sender of None \<Rightarrow> False | Some s \<Rightarrow> a = conn s")
      case True
      with Some Cons show ?thesis by (auto simp: dom_def)
    next
      case False
      have "count_list (writes (out (broadcastLoop env ord message sender (send env client message w)))) (k, b)
            = count_list (writes (out (send env client message w))) (k, b)
              + (if k \<in> set ord \<and> k \<in> dom (clients w)
                 \<and> \<not> (case sender of None \<Rightarrow> False | Some s \<Rightarrow> k = conn s)
                 \<and> b = message @ ''\<newline>'' then 1 else 0)"
        using Cons.IH[of "send env client message w"] Cons.prems by simp
      with Some False ca Cons.prems show ?thesis by (auto simp: dom_def)
    qed
  qed
qed

lemma registry_ok_conn: "registry_ok m \<Longrightarrow> m k = Some c \<Longrightarrow> conn c = k"
  by (auto simp: registry_ok_def dom_def)

lemma broadcast_count:
  assumes "registry_ok (clients w)" and "ords w = ord # rest" and "enumerates ord (clients w)"
  shows "count_list (writes (out (broadcast env message sender w))) (k, b)
         = count_list (writes (out w)) (k, b)
           + (if k \<in> dom (clients w)
                 \<and> \<not> (case sender of None \<Rightarrow> False | Some s \<Rightarrow> k = conn s)
                 \<and> b = message @ ''\<newline>'' then 1 else 0)"
proof -
  have "distinct ord" "set ord = dom (clients w)"
    using assms(3) by (simp_all add: enumerates_def)
  moreover have "\<forall>k c. clients (w\<lparr>ords := rest\<rparr>) k = Some c \<longrightarrow> conn c = k"
    using assms(1) by (auto dest: registry_ok_conn)
  ultimately show ?thesis
    using broadcastLoop_count[of ord "w\<lparr>ords := rest\<rparr>" env message sender k b] assms(2)
    by (simp add: broadcast_def rangeOrder_def)
qed

lemma broadcast_clients [simp]: "clients (broadcast env message sender w) = clients w"
  by (simp add: broadcast_def rangeOrder_def split: list.splits)

text \<open>
  C5. In a registry whose entries are stored under their own connections, a broadcast
  that excludes the sender S writes nothing on the connection of S and writes the message
  exactly once on the connection of every other registered participant; with no sender
  to exclude it writes the message once on every registered connection. The environment
  is arbitrary: a write that fails is reported and the loop goes on to the rest. The
  registry is not changed.
\<close>

theorem broadcast_delivery:
  assumes "registry_ok (clients w)" and "ords w = ord # rest" and "enumerates ord (clients w)"
  shows "(\<forall>b. count_list (writes (out (broadcast env message (Some S) w))) (conn S, b)
              = count_list (writes (out w)) (conn S, b))
         \<and> (\<forall>k \<in> dom (clients w). k \<noteq> conn S \<longrightarrow>
              count_list (writes (out (broadcast env message (Some S) w))) (k, message @ ''\<newline>'')
              = Suc (count_list (writes (out w)) (k, message @ ''\<newline>'')))
         \<and> (\<forall>k \<in> dom (clients w).
              count_list (writes (out (broadcast env message None w))) (k, message @ ''\<newline>'')
              = Suc (count_list (writes (out w)) (k, message @ ''\<newline>'')))
         \<and> clients (broadcast env message (Some S) w) = clients w
         \<and> clients (broadcast env message None w) = clients w"
  using broadcast_count[OF assms] by simp

theorem broadcast_delivery_witness:
  "registry_ok [1 \<mapsto> alice, 2 \<mapsto> bob, 3 \<mapsto> \<lparr>conn = 3, nickname = ''Carol''\<rparr>]
   \<and> enumerates [2, 3, 1] [1 \<mapsto> alice, 2 \<mapsto> bob, 3 \<mapsto> \<lparr>conn = 3, nickname = ''Carol''\<rparr>]
   \<and> (3::nat) \<in> dom [1 \<mapsto> alice, 2 \<mapsto> bob, 3 \<mapsto> \<lparr>conn = 3, nickname = ''Carol''\<rparr>]
   \<and> 3 \<noteq> conn alice
   \<and> count_list (writes (out (broadcast lossy ''hi'' (Some alice)
        \<lparr>clients = [1 \<mapsto> alice, 2 \<mapsto> bob, 3 \<mapsto> \<lparr>conn = 3, nickname = ''Carol''\<rparr>],
          ords = [[2, 3, 1]], out = []\<rparr>))) (3, ''hi\<newline>'') = 1
   \<and> count_list (writes (out (broadcast lossy ''hi'' None
        \<lparr>clients = [1 \<mapsto> alice, 2 \<mapsto> bob, 3 \<mapsto> \<lparr>conn = 3, nickname = ''Carol''\<rparr>],
          ords = [[2, 3, 1]], out = []\<rparr>))) (3, ''hi\<newline>'') = 1
   \<and> out (broadcast lossy ''hi'' (Some alice)
        \<lparr>clients = [1 \<mapsto> alice, 2 \<mapsto> bob, 3 \<mapsto> \<lparr>conn = 3, nickname = ''Carol''\<rparr>],
          ords = [[2, 3, 1]], out = []\<rparr>)
       = [Write 2 ''hi\<newline>'', Printf ''Error sending message to Bob: broken pipe\<newline>'',
          Write 3 ''hi\<newline>'']"
proof -
  have ok: "registry_ok (clients \<lparr>clients = [1 \<mapsto> alice, 2 \<mapsto> bob, 3 \<mapsto> \<lparr>conn = 3, nickname = ''Carol''\<rparr>],
          ords = [[2, 3, 1]], out = []\<rparr>)"
    by (simp add: registry_ok_def alice_def bob_def)
  have en: "enumerates [2, 3, 1] (clients \<lparr>clients = [1 \<mapsto> alice, 2 \<mapsto> bob, 3 \<mapsto> \<lparr>conn = 3, nickname = ''Carol''\<rparr>],
          ords = [[2, 3, 1]], out = []\<rparr>)"
    by (auto simp: enumerates_def)
  have or: "ords \<lparr>clients = [1 \<mapsto> alice, 2 \<mapsto> bob, 3 \<mapsto> \<lparr>conn = 3, nickname = ''Carol''\<rparr>],
          ords = [[2, 3, 1]], out = []\<rparr> = [2, 3, 1] # []"
    by simp
  have ev: "out (broadcast lossy ''hi'' (Some alice)
        \<lparr>clients = [1 \<mapsto> alice, 2 \<mapsto> bob, 3 \<mapsto> \<lparr>conn = 3, nickname = ''Carol''\<rparr>],
          ords = [[2, 3, 1]], out = []\<rparr>)
       = [Write 2 ''hi\<newline>'', Printf ''Error sending message to Bob: broken pipe\<newline>'',
          Write 3 ''hi\<newline>'']"
    by (simp add: broadcast_def rangeOrder_def sendEvents_def lossy_def alice_def bob_def)
  show ?thesis
    using broadcast_delivery [OF ok or en, of lossy "''hi''" alice] ok en ev
    by (simp add: alice_def)
qed

lemma broadcastLoop_out:
  "\<exists>evs. out (broadcastLoop env ord message sender w) = out w @ evs"
proof (induction ord arbitrary: w)
  case Nil
  then show ?case by simp
next
  case (Cons a ord)
  show ?case
  proof (cases "clients w a")
    case None
    with Cons show ?thesis by simp
  next
    case (Some client)
    from Cons[of "send env client message w"] Cons[of w] Some show ?thesis
      by (cases "case sender of None \<Rightarrow> False | Some s \<Rightarrow> a = conn s") auto
  qed
qed

lemma broadcast_out:
  "\<exists>evs. out (broadcast env message sender w) = out w @ evs"
proof (cases "ords w")
  case Nil
  then show ?thesis by (simp add: broadcast_def rangeOrder_def)
next
  case (Cons ord rest)
  then show ?thesis
    using broadcastLoop_out[of env ord message sender "w\<lparr>ords := rest\<rparr>"]
    by (simp add: broadcast_def rangeOrder_def)
qed

section \<open>A successful kick\<close>

text \<open>The first key of the order whose client has the nickname.\<close>

lemma kickLoop_find:
  "kickLoop env ord nick w =
     (case find (\<lambda>k. case clients w k of None \<Rightarrow> False | Some c \<Rightarrow> nickname c = nick) ord of
        None \<Rightarrow> (False, w)
      | Some v \<Rightarrow>
          (case clients w v of
             None \<Rightarrow> (False, w)
           | Some victim \<Rightarrow>
               (True, w\<lparr>clients := (clients w)(v := None),
                        out := out w @ sendEvents env victim ''You have been kicked!'' @ [Go_Close v]\<rparr>)))"
  by (induction ord) (auto simp: send_def split: option.splits)


lemma registry_ok_remove: "registry_ok m \<Longrightarrow> registry_ok (m(v := None))"
  by (simp add: registry_ok_def)

lemma find_named:
  assumes "set ord = dom m" and "m t = Some target" and "nickname target = nick"
  shows "\<exists>v victim. find (\<lambda>k. case m k of None \<Rightarrow> False | Some c \<Rightarrow> nickname c = nick) ord = Some v
           \<and> m v = Some victim \<and> nickname victim = nick"
proof -
  let ?P = "\<lambda>k. case m k of None \<Rightarrow> False | Some c \<Rightarrow> nickname c = nick"
  have "t \<in> set ord" using assms by auto
  moreover have "?P t" using assms by simp
  ultimately have "find ?P ord \<noteq> None" by (auto simp: find_None_iff)
  then obtain v where v: "find ?P ord = Some v" by auto
  then have "?P v" by (auto simp: find_Some_iff)
  then obtain victim where "m v = Some victim" "nickname victim = nick"
    by (cases "m v") auto
  with v show ?thesis by blast
qed

text \<open>
  C2, as the claim states it, fails: it gives the kicker the reply and everyone else the
  notice, but \<^verbatim>\<open>handleKickClient\<close> broadcasts the notice with no sender to leave out
  (\<^verbatim>\<open>s.broadcast(..., nil)\<close>), so the kicker, still registered, is written the notice as
  well. When Alice kicks Bob with Carol connected, Alice's connection gets both
  \<^verbatim>\<open>You have kicked Bob\<close> and \<^verbatim>\<open>Bob was kicked by Alice\<close>.
\<close>

theorem kick_notice_reaches_kicker:
  "conn alice = 1
   \<and> out (handleKickClient quiet ''/kick Bob'' alice
          \<lparr>clients = [1 \<mapsto> alice, 2 \<mapsto> bob, 3 \<mapsto> carol], ords = [[1, 2, 3], [3, 1]], out = []\<rparr>)
       = [Write 2 ''You have been kicked!\<newline>'',
          Go_Close 2,
          Write 1 ''You have kicked Bob\<newline>'',
          Write 3 ''Bob was kicked by Alice\<newline>'',
          Write 1 ''Bob was kicked by Alice\<newline>'']
   \<and> count_list (writes (out (handleKickClient quiet ''/kick Bob'' alice
          \<lparr>clients = [1 \<mapsto> alice, 2 \<mapsto> bob, 3 \<mapsto> carol], ords = [[1, 2, 3], [3, 1]], out = []\<rparr>)))
         (conn alice, ''Bob was kicked by Alice\<newline>'') = 1"
proof -
  have "out (handleKickClient quiet ''/kick Bob'' alice
          \<lparr>clients = [1 \<mapsto> alice, 2 \<mapsto> bob, 3 \<mapsto> carol], ords = [[1, 2, 3], [3, 1]], out = []\<rparr>)
       = [Write 2 ''You have been kicked!\<newline>'',
          Go_Close 2,
          Write 1 ''You have kicked Bob\<newline>'',
          Write 3 ''Bob was kicked by Alice\<newline>'',
          Write 1 ''Bob was kicked by Alice\<newline>'']"
    by (simp add: handleKickClient_def SplitN_2 kickClient_def broadcast_def rangeOrder_def
        send_def sendEvents_def quiet_def alice_def bob_def carol_def)
  then show ?thesis by (simp add: alice_def)
qed

text \<open>
  C2, amended. When \<^verbatim>\<open>handleKickClient\<close> gets a line whose argument is the nickname N of a
  registered participant, a victim with that nickname is chosen; the events that follow
  are, in this order: the send of \<^verbatim>\<open>You have been kicked!\<close> to the victim, the start of the
  goroutine that closes the victim's connection (the kicker's session does not wait for
  it: the next events are its own), the send of \<^verbatim>\<open>You have kicked N\<close> to the kicker, and the
  broadcast of the notice. The victim's entry is gone from the registry, and when the
  second \<^verbatim>\<open>range\<close> enumerates what is left, the notice \<^verbatim>\<open>N was kicked by K\<close> is written
  once to every participant still registered, that is to everyone but the victim: to the
  kicker too, when the kicker is registered and not the victim. Nothing of the broadcast
  is written to the victim.
\<close>

theorem kick_success:
  assumes ok: "registry_ok (clients w)"
    and ords: "ords w = o1 # o2 # rest"
    and en: "enumerates o1 (clients w)"
    and split: "SplitN message CHR '' '' 2 = [cmd, N]"
    and reg: "clients w t = Some target" and name: "nickname target = N"
  shows "\<exists>v victim bevs.
           clients w v = Some victim \<and> nickname victim = N \<and> conn victim = v
           \<and> clients (handleKickClient env message K w) = (clients w)(v := None)
           \<and> out (handleKickClient env message K w)
               = out w @ sendEvents env victim ''You have been kicked!'' @ [Go_Close v]
                 @ sendEvents env K (''You have kicked '' @ N) @ bevs
           \<and> (enumerates o2 ((clients w)(v := None)) \<longrightarrow>
                (\<forall>k \<in> dom (clients w) - {v}.
                   count_list (writes bevs) (k, N @ '' was kicked by '' @ nickname K @ ''\<newline>'') = 1)
                \<and> (conn K \<in> dom (clients w) \<and> conn K \<noteq> v \<longrightarrow>
                   count_list (writes bevs)
                     (conn K, N @ '' was kicked by '' @ nickname K @ ''\<newline>'') = 1)
                \<and> (\<forall>b. count_list (writes bevs) (v, b) = 0))"
proof -
  let ?P = "\<lambda>k. case clients w k of None \<Rightarrow> False | Some c \<Rightarrow> nickname c = N"
  let ?notice = "N @ '' was kicked by '' @ nickname K"
  from en have "set o1 = dom (clients w)" by (simp add: enumerates_def)
  from find_named[OF this reg name]
  obtain v victim where f: "find ?P o1 = Some v"
    and v: "clients w v = Some victim" and vn: "nickname victim = N"
    by blast
  from ok v have cv: "conn victim = v" by (rule registry_ok_conn)
  define w1 where "w1 = w\<lparr>ords := o2 # rest, clients := (clients w)(v := None),
      out := out w @ sendEvents env victim ''You have been kicked!'' @ [Go_Close v]\<rparr>"
  define w2 where "w2 = send env K (''You have kicked '' @ N) w1"
  have k: "kickClient env N w = (True, w1)"
    using ords f v by (simp add: kickClient_def rangeOrder_def kickLoop_find w1_def)
  have h: "handleKickClient env message K w = broadcast env ?notice None w2"
    using split k by (simp add: handleKickClient_def w2_def)
  obtain bevs where b: "out (broadcast env ?notice None w2) = out w2 @ bevs"
    using broadcast_out by blast
  have c1: "clients (handleKickClient env message K w) = (clients w)(v := None)"
    by (simp add: h w2_def w1_def)
  have o: "out (handleKickClient env message K w)
           = out w @ sendEvents env victim ''You have been kicked!'' @ [Go_Close v]
             @ sendEvents env K (''You have kicked '' @ N) @ bevs"
  proof -
    have "out (handleKickClient env message K w) = out w2 @ bevs"
      using h b by simp
    moreover have "out w2 = out w @ sendEvents env victim ''You have been kicked!'' @ [Go_Close v]
             @ sendEvents env K (''You have kicked '' @ N)"
      by (simp add: w2_def w1_def)
    ultimately show ?thesis by simp
  qed
  have cnt: "(\<forall>k \<in> dom (clients w) - {v}. count_list (writes bevs) (k, ?notice @ ''\<newline>'') = 1)
             \<and> (conn K \<in> dom (clients w) \<and> conn K \<noteq> v \<longrightarrow>
                  count_list (writes bevs) (conn K, ?notice @ ''\<newline>'') = 1)
             \<and> (\<forall>b. count_list (writes bevs) (v, b) = 0)"
    if e2: "enumerates o2 ((clients w)(v := None))"
  proof -
    have ok2: "registry_ok (clients w2)"
      using registry_ok_remove[OF ok, of v] by (simp add: w2_def w1_def)
    have or2: "ords w2 = o2 # rest" by (simp add: w2_def w1_def)
    have en2: "enumerates o2 (clients w2)" using e2 by (simp add: w2_def w1_def)
    have "count_list (writes (out w2 @ bevs)) (k, b)
          = count_list (writes (out w2)) (k, b)
            + (if k \<in> dom (clients w2) \<and> b = ?notice @ ''\<newline>'' then 1 else 0)" for k b
      using broadcast_count[OF ok2 or2 en2, of env ?notice None k b] b by simp
    then have "count_list (writes bevs) (k, b)
               = (if k \<in> dom (clients w2) \<and> b = ?notice @ ''\<newline>'' then 1 else 0)" for k b
      by simp
    moreover have "dom (clients w2) = dom (clients w) - {v}"
      by (auto simp: w2_def w1_def)
    ultimately show ?thesis by simp
  qed
  have "clients w v = Some victim \<and> nickname victim = N \<and> conn victim = v
           \<and> clients (handleKickClient env message K w) = (clients w)(v := None)
           \<and> out (handleKickClient env message K w)
               = out w @ sendEvents env victim ''You have been kicked!'' @ [Go_Close v]
                 @ sendEvents env K (''You have kicked '' @ N) @ bevs
           \<and> (enumerates o2 ((clients w)(v := None)) \<longrightarrow>
                (\<forall>k \<in> dom (clients w) - {v}.
                   count_list (writes bevs) (k, N @ '' was kicked by '' @ nickname K @ ''\<newline>'') = 1)
                \<and> (conn K \<in> dom (clients w) \<and> conn K \<noteq> v \<longrightarrow>
                   count_list (writes bevs)
                     (conn K, N @ '' was kicked by '' @ nickname K @ ''\<newline>'') = 1)
                \<and> (\<forall>b. count_list (writes bevs) (v, b) = 0))"
    using v vn cv c1 o cnt by (intro conjI impI) simp_all
  then show ?thesis by blast
qed

theorem kick_success_witness:
  "registry_ok [1 \<mapsto> alice, 2 \<mapsto> bob, 3 \<mapsto> carol]
   \<and> enumerates [1, 2, 3] [1 \<mapsto> alice, 2 \<mapsto> bob, 3 \<mapsto> carol]
   \<and> SplitN ''/kick Bob'' CHR '' '' 2 = [''/kick'', ''Bob'']
   \<and> [(1::nat) \<mapsto> alice, 2 \<mapsto> bob, 3 \<mapsto> carol] 2 = Some bob \<and> nickname bob = ''Bob''
   \<and> enumerates [3, 1] ([1 \<mapsto> alice, 2 \<mapsto> bob, 3 \<mapsto> carol](2 := None))
   \<and> conn alice \<in> dom [1 \<mapsto> alice, 2 \<mapsto> bob, 3 \<mapsto> carol] \<and> conn alice \<noteq> 2
   \<and> out (handleKickClient lossy ''/kick Bob'' alice
          \<lparr>clients = [1 \<mapsto> alice, 2 \<mapsto> bob, 3 \<mapsto> carol], ords = [[1, 2, 3], [3, 1]], out = []\<rparr>)
       = [Write 2 ''You have been kicked!\<newline>'',
          Printf ''Error sending message to Bob: broken pipe\<newline>'',
          Go_Close 2,
          Write 1 ''You have kicked Bob\<newline>'',
          Write 3 ''Bob was kicked by Alice\<newline>'',
          Write 1 ''Bob was kicked by Alice\<newline>'']
   \<and> clients (handleKickClient lossy ''/kick Bob'' alice
          \<lparr>clients = [1 \<mapsto> alice, 2 \<mapsto> bob, 3 \<mapsto> carol], ords = [[1, 2, 3], [3, 1]], out = []\<rparr>)
       = [1 \<mapsto> alice, 2 \<mapsto> bob, 3 \<mapsto> carol](2 := None)
   \<and> (\<exists>bevs.
         out (handleKickClient lossy ''/kick Bob'' alice
          \<lparr>clients = [1 \<mapsto> alice, 2 \<mapsto> bob, 3 \<mapsto> carol], ords = [[1, 2, 3], [3, 1]], out = []\<rparr>)
           = sendEvents lossy bob ''You have been kicked!'' @ [Go_Close 2]
             @ sendEvents lossy alice ''You have kicked Bob'' @ bevs
         \<and> count_list (writes bevs) (3, ''Bob was kicked by Alice\<newline>'') = 1
         \<and> count_list (writes bevs) (conn alice, ''Bob was kicked by Alice\<newline>'') = 1
         \<and> count_list (writes bevs) (2, ''Bob was kicked by Alice\<newline>'') = 0)"
proof -
  let ?m = "[(1::nat) \<mapsto> alice, 2 \<mapsto> bob, 3 \<mapsto> carol]"
  let ?w = "\<lparr>clients = ?m, ords = [[1, 2, 3], [3, 1]], out = []\<rparr>"
  let ?notice = "''Bob was kicked by Alice\<newline>''"
  have ok: "registry_ok (clients ?w)"
    by (simp add: registry_ok_def alice_def bob_def carol_def)
  have or: "ords ?w = [1, 2, 3] # [3, 1] # []" by simp
  have en: "enumerates [1, 2, 3] (clients ?w)" by (auto simp: enumerates_def)
  have sp: "SplitN ''/kick Bob'' CHR '' '' 2 = [''/kick'', ''Bob'']" by (simp add: SplitN_2)
  have rg: "clients ?w 2 = Some bob" by simp
  have nm: "nickname bob = ''Bob''" by (simp add: bob_def)
  have e2: "enumerates [3, 1] (?m(2 := None))"
    by (auto simp: enumerates_def split: if_splits)
  have ka: "conn alice \<in> dom ?m" "conn alice \<noteq> 2" by (simp_all add: alice_def)
  have na: "nickname alice = ''Alice''" by (simp add: alice_def)
  have run: "out (handleKickClient lossy ''/kick Bob'' alice ?w)
      = [Write 2 ''You have been kicked!\<newline>'',
         Printf ''Error sending message to Bob: broken pipe\<newline>'',
         Go_Close 2,
         Write 1 ''You have kicked Bob\<newline>'',
         Write 3 ''Bob was kicked by Alice\<newline>'',
         Write 1 ''Bob was kicked by Alice\<newline>'']"
    by (simp add: handleKickClient_def SplitN_2 kickClient_def broadcast_def rangeOrder_def
        send_def sendEvents_def lossy_def alice_def bob_def carol_def)
  from kick_success [OF ok or en sp rg nm, of lossy alice]
  obtain v victim bevs where
    v: "clients ?w v = Some victim" and vn: "nickname victim = ''Bob''"
    and cl: "clients (handleKickClient lossy ''/kick Bob'' alice ?w) = (clients ?w)(v := None)"
    and ou: "out (handleKickClient lossy ''/kick Bob'' alice ?w)
       = out ?w @ sendEvents lossy victim ''You have been kicked!'' @ [Go_Close v]
         @ sendEvents lossy alice (''You have kicked '' @ ''Bob'') @ bevs"
    and cn: "enumerates [3, 1] ((clients ?w)(v := None)) \<longrightarrow>
                (\<forall>k \<in> dom (clients ?w) - {v}.
                   count_list (writes bevs) (k, ''Bob'' @ '' was kicked by '' @ nickname alice @ ''\<newline>'') = 1)
                \<and> (conn alice \<in> dom (clients ?w) \<and> conn alice \<noteq> v \<longrightarrow>
                   count_list (writes bevs)
                     (conn alice, ''Bob'' @ '' was kicked by '' @ nickname alice @ ''\<newline>'') = 1)
                \<and> (\<forall>b. count_list (writes bevs) (v, b) = 0)"
    by blast
  from v vn have v2: "v = 2" and vb: "victim = bob"
    by (auto simp: alice_def bob_def carol_def split: if_splits)
  from cn e2 have cn': "(\<forall>k \<in> dom ?m - {2}. count_list (writes bevs) (k, ?notice) = 1)
      \<and> (conn alice \<in> dom ?m \<and> conn alice \<noteq> 2 \<longrightarrow>
                 count_list (writes bevs) (conn alice, ?notice) = 1)
      \<and> (\<forall>b. count_list (writes bevs) (2, b) = 0)"
    by (simp add: v2 na) blast
  from cn' have all: "\<forall>k \<in> dom ?m - {2}. count_list (writes bevs) (k, ?notice) = 1"
    by (rule conjunct1)
  from cn' have kick: "conn alice \<in> dom ?m \<and> conn alice \<noteq> 2 \<longrightarrow>
                 count_list (writes bevs) (conn alice, ?notice) = 1"
    by (rule conjunct2[THEN conjunct1])
  from cn' have none: "\<forall>b. count_list (writes bevs) (2, b) = 0"
    by (rule conjunct2[THEN conjunct2])
  have "(3::nat) \<in> dom ?m - {2}" by simp
  with all have c3: "count_list (writes bevs) (3, ?notice) = 1" by blast
  from kick ka have c1: "count_list (writes bevs) (conn alice, ?notice) = 1" by blast
  from none have c2: "count_list (writes bevs) (2, ?notice) = 0" by blast
  from ou have ou': "out (handleKickClient lossy ''/kick Bob'' alice ?w)
           = sendEvents lossy bob ''You have been kicked!'' @ [Go_Close 2]
             @ sendEvents lossy alice ''You have kicked Bob'' @ bevs"
    by (simp add: v2 vb)
  from ou' c3 c1 c2 have ex: "\<exists>bevs.
         out (handleKickClient lossy ''/kick Bob'' alice ?w)
           = sendEvents lossy bob ''You have been kicked!'' @ [Go_Close 2]
             @ sendEvents lossy alice ''You have kicked Bob'' @ bevs
         \<and> count_list (writes bevs) (3, ?notice) = 1
         \<and> count_list (writes bevs) (conn alice, ?notice) = 1
         \<and> count_list (writes bevs) (2, ?notice) = 0"
    by blast
  from cl have cl': "clients (handleKickClient lossy ''/kick Bob'' alice ?w) = ?m(2 := None)"
    by (simp add: v2)
  from ok have ok': "registry_ok ?m" by simp
  from en have en': "enumerates [1, 2, 3] ?m" by simp
  from rg have rg': "?m 2 = Some bob" by simp
  from ok' en' sp rg' nm e2 ka run cl' ex show ?thesis by (intro conjI)
qed

section \<open>The roster\<close>

lemma listLoop_lines:
  "listLoop m ord result
   = result @ concat (map (\<lambda>k. case m k of None \<Rightarrow> [] | Some c \<Rightarrow> ''\<newline>- '' @ nickname c) ord)"
  by (induction ord arbitrary: result) (simp_all split: option.splits)

lemma enumerates_card: "enumerates ord m \<Longrightarrow> card (dom m) = length ord"
  by (metis enumerates_def distinct_card)

lemma enumerates_empty: "enumerates ord m \<Longrightarrow> (ord = []) = (m = Map.empty)"
  by (metis enumerates_def set_empty dom_eq_empty_conv)

lemma itoa_1: "itoa (Suc 0) = ''1''"
  by code_simp

lemma itoa_2: "itoa (Suc (Suc 0)) = ''2''"
  by code_simp

lemma TrimSpace_list: "TrimSpace ''/list'' = ''/list''"
  by code_simp

lemma getClientList_lines:
  assumes "ords w = ord # rest" and "enumerates ord (clients w)"
  shows "getClientList w =
     (if clients w = Map.empty then (''No clients connected'', w)
      else (''Connected clients ('' @ itoa (length ord) @ ''):''
              @ concat (map (\<lambda>k. case clients w k of None \<Rightarrow> [] | Some c \<Rightarrow> ''\<newline>- '' @ nickname c) ord),
            w\<lparr>ords := rest\<rparr>))"
proof (cases "clients w = Map.empty")
  case True
  then show ?thesis by (simp add: getClientList_def)
next
  case False
  with assms(2) have "ord \<noteq> []" by (simp add: enumerates_empty)
  moreover have "card (dom (clients w)) = length ord" using assms(2) by (rule enumerates_card)
  ultimately show ?thesis
    using False assms(1) by (simp add: getClientList_def rangeOrder_def listLoop_lines)
qed

lemma two_keys:
  assumes "distinct ord" and "set ord = {a, b}" and "a \<noteq> b"
  shows "ord = [a, b] \<or> ord = [b, a]"
proof -
  have "length ord = 2" using assms by (metis distinct_card card_2_iff)
  then obtain x y where xy: "ord = [x, y]"
    by (auto simp: numeral_2_eq_2 length_Suc_conv)
  with assms show ?thesis by (auto simp: doubleton_eq_iff)
qed

text \<open>
  C1, as the claim states it, fails: \<^verbatim>\<open>getClientList\<close> lists the whole registry, and the
  requester is in it (\<^verbatim>\<open>handleClient\<close> registers a session before it reads commands). For
  Alice alone the answer to \<^verbatim>\<open>/list\<close> is a roster of one, not \<^verbatim>\<open>No clients connected\<close>.
\<close>

theorem list_counts_requester:
  "dom (clients \<lparr>clients = [1 \<mapsto> alice], ords = [[1]], out = []\<rparr>) = {conn alice}
   \<and> handleLine quiet alice ''/list'' \<lparr>clients = [1 \<mapsto> alice], ords = [[1]], out = []\<rparr>
       = (Continue, \<lparr>clients = [1 \<mapsto> alice], ords = [],
                      out = [Write 1 ''Connected clients (1):\<newline>- Alice\<newline>'']\<rparr>)
   \<and> fst (getClientList \<lparr>clients = [1 \<mapsto> alice], ords = [[1]], out = []\<rparr>)
       \<noteq> ''No clients connected''"
  by (simp add: handleLine_def TrimSpace_list HasPrefix_def getClientList_def rangeOrder_def
      itoa_1 send_def sendEvents_def quiet_def alice_def)

text \<open>
  C1, amended. A line with the prefix \<^verbatim>\<open>/list\<close> is answered to the requester alone with
  the roster of the whole registry, which is left unchanged. The roster is
  \<^verbatim>\<open>No clients connected\<close> exactly when the registry is empty, so never for a requester
  who is registered: alone, the requester gets the header with count 1 and its own name.
  When the registry holds exactly Alice and Bob (the requester being one of them), the
  roster is the header with count 2 followed by the two lines, in either order.
\<close>

theorem list_roster:
  assumes "ords w = ord # rest" and "enumerates ord (clients w)"
    and "HasPrefix (TrimSpace t) ''/list''"
  shows "handleLine env requester t w
           = (Continue, send env requester (fst (getClientList w)) (snd (getClientList w)))
         \<and> clients (snd (getClientList w)) = clients w
         \<and> (fst (getClientList w) = ''No clients connected'') = (clients w = Map.empty)
         \<and> (clients w = [conn requester \<mapsto> requester] \<longrightarrow>
              fst (getClientList w) = ''Connected clients (1):\<newline>- '' @ nickname requester)
         \<and> (\<forall>a b ca cb. a \<noteq> b \<and> clients w = [a \<mapsto> ca, b \<mapsto> cb]
                \<and> nickname ca = ''Alice'' \<and> nickname cb = ''Bob'' \<longrightarrow>
              fst (getClientList w) = ''Connected clients (2):\<newline>- Alice\<newline>- Bob''
              \<or> fst (getClientList w) = ''Connected clients (2):\<newline>- Bob\<newline>- Alice'')"
proof -
  note g = getClientList_lines[OF assms(1,2)]
  have 1: "handleLine env requester t w
           = (Continue, send env requester (fst (getClientList w)) (snd (getClientList w)))"
  proof -
    from assms(3) have p: "take (length ''/list'') (TrimSpace t) = ''/list''"
      by (simp add: HasPrefix_def)
    then have "TrimSpace t \<noteq> []" by auto
    with p show ?thesis
      by (simp add: handleLine_def HasPrefix_def split_beta)
  qed
  have 2: "clients (snd (getClientList w)) = clients w" by (simp add: g)
  have 3: "(fst (getClientList w) = ''No clients connected'') = (clients w = Map.empty)"
    by (simp add: g)
  have 4: "fst (getClientList w) = ''Connected clients (1):\<newline>- '' @ nickname requester"
    if "clients w = [conn requester \<mapsto> requester]"
  proof -
    from that assms(2) have "distinct ord" "set ord = {conn requester}"
      by (simp_all add: enumerates_def)
    then have "ord = [conn requester]"
      by (metis distinct.simps(2) distinct_singleton empty_set insert_not_empty list.exhaust
          list.simps(15) singleton_insert_inj_eq' empty_iff insert_iff list.set_intros(1))
    with that show ?thesis by (simp add: g itoa_1)
  qed
  have 5: "fst (getClientList w) = ''Connected clients (2):\<newline>- Alice\<newline>- Bob''
           \<or> fst (getClientList w) = ''Connected clients (2):\<newline>- Bob\<newline>- Alice''"
    if h: "a \<noteq> b \<and> clients w = [a \<mapsto> ca, b \<mapsto> cb] \<and> nickname ca = ''Alice'' \<and> nickname cb = ''Bob''"
    for a b ca cb
  proof -
    from h assms(2) have "distinct ord" "set ord = {a, b}"
      by (auto simp: enumerates_def)
    with h have "ord = [a, b] \<or> ord = [b, a]" by (simp add: two_keys)
    moreover from h have "clients w \<noteq> Map.empty" by (metis fun_upd_same option.distinct(1))
    ultimately show ?thesis using h by (auto simp: g itoa_2)
  qed
  from 1 2 3 4 5 show ?thesis by blast
qed

theorem list_roster_witness:
  "enumerates [2, 1] [1 \<mapsto> alice, 2 \<mapsto> bob]
   \<and> HasPrefix (TrimSpace ''/list'') ''/list''
   \<and> nickname alice = ''Alice'' \<and> nickname bob = ''Bob''
   \<and> handleLine quiet alice ''/list''
        \<lparr>clients = [1 \<mapsto> alice, 2 \<mapsto> bob], ords = [[2, 1]], out = []\<rparr>
      = (Continue, \<lparr>clients = [1 \<mapsto> alice, 2 \<mapsto> bob], ords = [],
                     out = [Write 1 ''Connected clients (2):\<newline>- Bob\<newline>- Alice\<newline>'']\<rparr>)
   \<and> enumerates [1] [conn alice \<mapsto> alice]
   \<and> fst (getClientList \<lparr>clients = [conn alice \<mapsto> alice], ords = [[1]], out = []\<rparr>)
      = ''Connected clients (1):\<newline>- Alice''"
proof -
  let ?w = "\<lparr>clients = [1 \<mapsto> alice, 2 \<mapsto> bob], ords = [[2, 1]], out = []\<rparr>"
  let ?v = "\<lparr>clients = [conn alice \<mapsto> alice], ords = [[1]], out = []\<rparr>"
  have o: "ords ?w = [2, 1] # []" by simp
  have e: "enumerates [2, 1] (clients ?w)" by (auto simp: enumerates_def)
  have p: "HasPrefix (TrimSpace ''/list'') ''/list''" by (simp add: TrimSpace_list HasPrefix_def)
  have o1: "ords ?v = [1] # []" by simp
  have e1: "enumerates [1] (clients ?v)" by (simp add: enumerates_def alice_def)
  have n: "nickname alice = ''Alice''" "nickname bob = ''Bob''" by (simp_all add: alice_def bob_def)
  have g: "getClientList ?w = (''Connected clients (2):\<newline>- Bob\<newline>- Alice'', ?w\<lparr>ords := []\<rparr>)"
    by (simp add: getClientList_def rangeOrder_def itoa_2 alice_def bob_def)
  from list_roster [OF o e p, of quiet alice]
  have 1: "handleLine quiet alice ''/list'' ?w
           = (Continue, send quiet alice (fst (getClientList ?w)) (snd (getClientList ?w)))"
    by (rule conjunct1)
  have 2: "handleLine quiet alice ''/list'' ?w
      = (Continue, \<lparr>clients = [1 \<mapsto> alice, 2 \<mapsto> bob], ords = [],
                     out = [Write 1 ''Connected clients (2):\<newline>- Bob\<newline>- Alice\<newline>'']\<rparr>)"
    unfolding 1 g by (simp add: send_def sendEvents_def quiet_def alice_def)
  from list_roster [OF o1 e1 p, of quiet alice]
  have 3: "fst (getClientList ?v) = ''Connected clients (1):\<newline>- '' @ nickname alice"
    by simp
  from e p n 2 e1 3 show ?thesis by simp
qed

section \<open>Iteration order\<close>

text \<open>
  C8, as the claim states it, fails: the roster and the lookup by name follow the order
  of their own \<^verbatim>\<open>range\<close> over the map, and Go does not keep that order from one loop to the
  next. Two invocations of \<^verbatim>\<open>getClientList\<close> on the same registry, the second right after
  the first, give different strings when the two loops run in different orders; and of
  two participants named Bob, \<^verbatim>\<open>kickClient\<close> takes the one its loop meets first, so two
  lookups on the same registry select different participants.
\<close>

theorem range_order_varies:
  "clients (snd (getClientList \<lparr>clients = [1 \<mapsto> alice, 2 \<mapsto> bob], ords = [[1, 2], [2, 1]], out = []\<rparr>))
     = [1 \<mapsto> alice, 2 \<mapsto> bob]
   \<and> fst (getClientList \<lparr>clients = [1 \<mapsto> alice, 2 \<mapsto> bob], ords = [[1, 2], [2, 1]], out = []\<rparr>)
     = ''Connected clients (2):\<newline>- Alice\<newline>- Bob''
   \<and> fst (getClientList
           (snd (getClientList \<lparr>clients = [1 \<mapsto> alice, 2 \<mapsto> bob], ords = [[1, 2], [2, 1]], out = []\<rparr>)))
     = ''Connected clients (2):\<newline>- Bob\<newline>- Alice''
   \<and> clients (snd (kickClient quiet ''Bob''
         \<lparr>clients = [2 \<mapsto> bob, 3 \<mapsto> \<lparr>conn = 3, nickname = ''Bob''\<rparr>], ords = [[2, 3]], out = []\<rparr>))
     = [3 \<mapsto> \<lparr>conn = 3, nickname = ''Bob''\<rparr>]
   \<and> clients (snd (kickClient quiet ''Bob''
         \<lparr>clients = [2 \<mapsto> bob, 3 \<mapsto> \<lparr>conn = 3, nickname = ''Bob''\<rparr>], ords = [[3, 2]], out = []\<rparr>))
     = [2 \<mapsto> bob]
   \<and> [(3::nat) \<mapsto> \<lparr>conn = 3, nickname = ''Bob''\<rparr>] \<noteq> [2 \<mapsto> bob]"
proof -
  have a: "[(3::nat) \<mapsto> \<lparr>conn = 3, nickname = ''Bob''\<rparr>] \<noteq> [2 \<mapsto> bob]"
  proof
    assume eq: "[(3::nat) \<mapsto> \<lparr>conn = 3, nickname = ''Bob''\<rparr>] = [2 \<mapsto> bob]"
    from fun_cong[OF eq, of 2] show False by simp
  qed
  have b: "[(2::nat) \<mapsto> bob, 3 \<mapsto> \<lparr>conn = 3, nickname = ''Bob''\<rparr>](2 := None)
                 = [3 \<mapsto> \<lparr>conn = 3, nickname = ''Bob''\<rparr>]"
    by (rule ext) simp
  have c: "getClientList \<lparr>clients = [1 \<mapsto> alice, 2 \<mapsto> bob], ords = [[1, 2], [2, 1]], out = []\<rparr>
     = (''Connected clients (2):\<newline>- Alice\<newline>- Bob'',
        \<lparr>clients = [1 \<mapsto> alice, 2 \<mapsto> bob], ords = [[2, 1]], out = []\<rparr>)"
    by (simp add: getClientList_def rangeOrder_def itoa_2 alice_def bob_def)
  have d: "getClientList \<lparr>clients = [1 \<mapsto> alice, 2 \<mapsto> bob], ords = [[2, 1]], out = []\<rparr>
     = (''Connected clients (2):\<newline>- Bob\<newline>- Alice'',
        \<lparr>clients = [1 \<mapsto> alice, 2 \<mapsto> bob], ords = [], out = []\<rparr>)"
    by (simp add: getClientList_def rangeOrder_def itoa_2 alice_def bob_def)
  have e: "clients (snd (kickClient quiet ''Bob''
         \<lparr>clients = [2 \<mapsto> bob, 3 \<mapsto> \<lparr>conn = 3, nickname = ''Bob''\<rparr>], ords = [[2, 3]], out = []\<rparr>))
     = [3 \<mapsto> \<lparr>conn = 3, nickname = ''Bob''\<rparr>]"
    by (simp add: kickClient_def rangeOrder_def bob_def b[unfolded bob_def])
  have f: "clients (snd (kickClient quiet ''Bob''
         \<lparr>clients = [2 \<mapsto> bob, 3 \<mapsto> \<lparr>conn = 3, nickname = ''Bob''\<rparr>], ords = [[3, 2]], out = []\<rparr>))
     = [2 \<mapsto> bob]"
    by (simp add: kickClient_def rangeOrder_def bob_def)
  from a c d e f show ?thesis by simp
qed

lemma enumerates_mset: "enumerates o1 m \<Longrightarrow> enumerates o2 m \<Longrightarrow> mset o1 = mset o2"
  by (simp add: enumerates_def set_eq_iff_mset_eq_distinct[symmetric])

lemma find_unique:
  assumes "set o1 = set o2" and "\<And>a b. P a \<Longrightarrow> P b \<Longrightarrow> a = b"
  shows "find P o1 = find P o2"
proof (cases "find P o1")
  case None
  then have "\<forall>x \<in> set o2. \<not> P x" using assms(1) by (auto simp: find_None_iff)
  then have "find P o2 = None" by (simp add: find_None_iff)
  with None show ?thesis by simp
next
  case (Some v)
  then have v: "P v" "v \<in> set o2" using assms(1) by (auto simp: find_Some_iff nth_mem)
  then have "find P o2 \<noteq> None" by (auto simp: find_None_iff)
  then obtain u where u: "find P o2 = Some u" by auto
  then have "P u" by (auto simp: find_Some_iff)
  with v assms(2) have "u = v" by blast
  with Some u show ?thesis by simp
qed

lemma kickClient_find:
  assumes "ords w = ord # rest"
  shows "kickClient env nick w =
     (case find (\<lambda>k. case clients w k of None \<Rightarrow> False | Some c \<Rightarrow> nickname c = nick) ord of
        None \<Rightarrow> (False, w\<lparr>ords := rest\<rparr>)
      | Some v \<Rightarrow>
          (case clients w v of
             None \<Rightarrow> (False, w\<lparr>ords := rest\<rparr>)
           | Some victim \<Rightarrow>
               (True, w\<lparr>ords := rest, clients := (clients w)(v := None),
                        out := out w @ sendEvents env victim ''You have been kicked!'' @ [Go_Close v]\<rparr>)))"
  using assms by (simp add: kickClient_def rangeOrder_def kickLoop_find split: option.splits)

lemma kickClient_result:
  assumes "ords w = ord # rest"
  shows "fst (kickClient env nick w)
           = (find (\<lambda>k. case clients w k of None \<Rightarrow> False | Some c \<Rightarrow> nickname c = nick) ord \<noteq> None)
         \<and> clients (snd (kickClient env nick w))
           = (case find (\<lambda>k. case clients w k of None \<Rightarrow> False | Some c \<Rightarrow> nickname c = nick) ord of
                None \<Rightarrow> clients w
              | Some v \<Rightarrow> (clients w)(v := None))"
proof (cases "find (\<lambda>k. case clients w k of None \<Rightarrow> False | Some c \<Rightarrow> nickname c = nick) ord")
  case None
  then show ?thesis by (simp add: kickClient_find[OF assms])
next
  case (Some v)
  then have "case clients w v of None \<Rightarrow> False | Some c \<Rightarrow> nickname c = nick"
    by (auto simp: find_Some_iff)
  then obtain c where "clients w v = Some c" by (cases "clients w v") auto
  with Some show ?thesis by (simp add: kickClient_find[OF assms])
qed

text \<open>
  C8, amended. For a fixed registry the roster is determined by the registry and the
  order of that call's \<^verbatim>\<open>range\<close>: two invocations that iterate in the same order give the
  same string, and under any two orders the strings have the same header and count, the
  same lines up to their order, and the same length. A lookup by name succeeds or fails
  whatever the order, and selects the first participant of that name in the order of its
  own loop: two lookups select the same participant when their orders agree on that first
  one, and always when the name is not duplicated.
\<close>

theorem range_order_dependence:
  assumes "clients w1 = m" and "clients w2 = m"
    and "ords w1 = o1 # r1" and "ords w2 = o2 # r2"
    and "enumerates o1 m" and "enumerates o2 m"
  shows "(o1 = o2 \<longrightarrow> fst (getClientList w1) = fst (getClientList w2))
     \<and> (m \<noteq> Map.empty \<longrightarrow>
          fst (getClientList w1)
            = ''Connected clients ('' @ itoa (card (dom m)) @ ''):''
              @ concat (map (\<lambda>k. case m k of None \<Rightarrow> [] | Some c \<Rightarrow> ''\<newline>- '' @ nickname c) o1)
          \<and> fst (getClientList w2)
            = ''Connected clients ('' @ itoa (card (dom m)) @ ''):''
              @ concat (map (\<lambda>k. case m k of None \<Rightarrow> [] | Some c \<Rightarrow> ''\<newline>- '' @ nickname c) o2))
     \<and> mset (map (\<lambda>k. case m k of None \<Rightarrow> [] | Some c \<Rightarrow> ''\<newline>- '' @ nickname c) o1)
         = mset (map (\<lambda>k. case m k of None \<Rightarrow> [] | Some c \<Rightarrow> ''\<newline>- '' @ nickname c) o2)
     \<and> length (fst (getClientList w1)) = length (fst (getClientList w2))
     \<and> fst (kickClient env N w1) = fst (kickClient env N w2)
     \<and> (\<forall>v. find (\<lambda>k. case m k of None \<Rightarrow> False | Some c \<Rightarrow> nickname c = N) o1 = Some v \<longrightarrow>
           clients (snd (kickClient env N w1)) = m(v := None))
     \<and> (find (\<lambda>k. case m k of None \<Rightarrow> False | Some c \<Rightarrow> nickname c = N) o1
          = find (\<lambda>k. case m k of None \<Rightarrow> False | Some c \<Rightarrow> nickname c = N) o2 \<longrightarrow>
           clients (snd (kickClient env N w1)) = clients (snd (kickClient env N w2)))
     \<and> ((\<forall>a b ca cb. m a = Some ca \<and> m b = Some cb \<and> nickname ca = N \<and> nickname cb = N
            \<longrightarrow> a = b) \<longrightarrow>
           clients (snd (kickClient env N w1)) = clients (snd (kickClient env N w2)))"
proof -
  let ?line = "\<lambda>k. case m k of None \<Rightarrow> [] | Some c \<Rightarrow> ''\<newline>- '' @ nickname c"
  let ?P = "\<lambda>k. case m k of None \<Rightarrow> False | Some c \<Rightarrow> nickname c = N"
  have e1: "enumerates o1 (clients w1)" and e2: "enumerates o2 (clients w2)"
    using assms by simp_all
  note g1 = getClientList_lines[OF assms(3) e1, unfolded assms(1)]
  note g2 = getClientList_lines[OF assms(4) e2, unfolded assms(2)]
  have c1: "card (dom m) = length o1" by (rule enumerates_card) fact
  have c2: "card (dom m) = length o2" by (rule enumerates_card) fact
  have ms: "mset (map ?line o1) = mset (map ?line o2)"
    using enumerates_mset[OF assms(5,6)] by simp
  have 1: "o1 = o2 \<longrightarrow> fst (getClientList w1) = fst (getClientList w2)"
    by (simp add: g1 g2)
  have 2: "m \<noteq> Map.empty \<longrightarrow>
          fst (getClientList w1) = ''Connected clients ('' @ itoa (card (dom m)) @ ''):'' @ concat (map ?line o1)
          \<and> fst (getClientList w2) = ''Connected clients ('' @ itoa (card (dom m)) @ ''):'' @ concat (map ?line o2)"
    using c1 c2 by (simp add: g1 g2)
  have "length (concat (map ?line o1)) = length (concat (map ?line o2))"
  proof -
    have "mset (map (\<lambda>k. length (?line k)) o1) = mset (map (\<lambda>k. length (?line k)) o2)"
      using enumerates_mset[OF assms(5,6)] by simp
    then have "sum_mset (mset (map (\<lambda>k. length (?line k)) o1))
               = sum_mset (mset (map (\<lambda>k. length (?line k)) o2))"
      by (rule arg_cong)
    then have "sum_list (map (\<lambda>k. length (?line k)) o1) = sum_list (map (\<lambda>k. length (?line k)) o2)"
      by (simp only: sum_mset_sum_list)
    then show ?thesis by (simp add: length_concat comp_def)
  qed
  then have 3: "length (fst (getClientList w1)) = length (fst (getClientList w2))"
    using c1 c2 by (simp add: g1 g2)
  note k1 = kickClient_result[OF assms(3), of env N, unfolded assms(1)]
  note k2 = kickClient_result[OF assms(4), of env N, unfolded assms(2)]
  have s12: "set o1 = set o2" using assms(5,6) by (simp add: enumerates_def)
  have "(find ?P o1 = None) = (find ?P o2 = None)"
    using s12 by (simp add: find_None_iff)
  then have 4: "fst (kickClient env N w1) = fst (kickClient env N w2)"
    by (simp add: k1 k2)
  have 5: "\<forall>v. find ?P o1 = Some v \<longrightarrow> clients (snd (kickClient env N w1)) = m(v := None)"
    by (simp add: k1)
  have 6: "find ?P o1 = find ?P o2 \<longrightarrow>
           clients (snd (kickClient env N w1)) = clients (snd (kickClient env N w2))"
    by (simp add: k1 k2)
  have 7: "(\<forall>a b ca cb. m a = Some ca \<and> m b = Some cb \<and> nickname ca = N \<and> nickname cb = N
            \<longrightarrow> a = b) \<longrightarrow>
           clients (snd (kickClient env N w1)) = clients (snd (kickClient env N w2))"
  proof
    assume u: "\<forall>a b ca cb. m a = Some ca \<and> m b = Some cb \<and> nickname ca = N \<and> nickname cb = N
            \<longrightarrow> a = b"
    have "a = b" if "?P a" "?P b" for a b
    proof -
      from that obtain ca cb where "m a = Some ca" "nickname ca = N" "m b = Some cb" "nickname cb = N"
        by (cases "m a"; cases "m b") auto
      with u show ?thesis by blast
    qed
    then have "find ?P o1 = find ?P o2" using s12 by (rule find_unique[rotated])
    with 6 show "clients (snd (kickClient env N w1)) = clients (snd (kickClient env N w2))"
      by simp
  qed
  from 1 2 ms 3 4 5 6 7 show ?thesis by (intro conjI)
qed

theorem range_order_dependence_witness:
  "enumerates [1, 2] [1 \<mapsto> alice, 2 \<mapsto> bob] \<and> enumerates [2, 1] [1 \<mapsto> alice, 2 \<mapsto> bob]
   \<and> [(1::nat) \<mapsto> alice, 2 \<mapsto> bob] \<noteq> Map.empty
   \<and> find (\<lambda>k. case [(1::nat) \<mapsto> alice, 2 \<mapsto> bob] k of None \<Rightarrow> False
                  | Some c \<Rightarrow> nickname c = ''Bob'') [1, 2] = Some 2
   \<and> fst (getClientList \<lparr>clients = [1 \<mapsto> alice, 2 \<mapsto> bob], ords = [[1, 2]], out = []\<rparr>)
       = ''Connected clients (2):\<newline>- Alice\<newline>- Bob''
   \<and> fst (getClientList \<lparr>clients = [1 \<mapsto> alice, 2 \<mapsto> bob], ords = [[2, 1]], out = []\<rparr>)
       = ''Connected clients (2):\<newline>- Bob\<newline>- Alice''
   \<and> clients (snd (kickClient quiet ''Bob''
          \<lparr>clients = [1 \<mapsto> alice, 2 \<mapsto> bob], ords = [[1, 2]], out = []\<rparr>))
       = [1 \<mapsto> alice, 2 \<mapsto> bob](2 := None)
   \<and> clients (snd (kickClient quiet ''Bob''
          \<lparr>clients = [1 \<mapsto> alice, 2 \<mapsto> bob], ords = [[1, 2]], out = []\<rparr>))
       = clients (snd (kickClient quiet ''Bob''
          \<lparr>clients = [1 \<mapsto> alice, 2 \<mapsto> bob], ords = [[2, 1]], out = []\<rparr>))"
proof -
  let ?m = "[(1::nat) \<mapsto> alice, 2 \<mapsto> bob]"
  let ?w1 = "\<lparr>clients = ?m, ords = [[1, 2]], out = []\<rparr>"
  let ?w2 = "\<lparr>clients = ?m, ords = [[2, 1]], out = []\<rparr>"
  let ?P = "\<lambda>k. case ?m k of None \<Rightarrow> False | Some c \<Rightarrow> nickname c = ''Bob''"
  have c1: "clients ?w1 = ?m" and c2: "clients ?w2 = ?m" by simp_all
  have r1: "ords ?w1 = [1, 2] # []" and r2: "ords ?w2 = [2, 1] # []" by simp_all
  have e1: "enumerates [1, 2] ?m" and e2: "enumerates [2, 1] ?m"
    by (auto simp: enumerates_def)
  have ne: "?m \<noteq> Map.empty"
  proof
    assume "?m = Map.empty"
    from fun_cong[OF this, of 2] show False by simp
  qed
  have f1: "find ?P [1, 2] = Some 2" by (simp add: alice_def bob_def)
  have un: "\<forall>a b ca cb. ?m a = Some ca \<and> ?m b = Some cb \<and> nickname ca = ''Bob'' \<and> nickname cb = ''Bob''
              \<longrightarrow> a = b"
    by (auto simp: alice_def bob_def split: if_splits)
  note t = range_order_dependence [OF c1 c2 r1 r2 e1 e2, of quiet "''Bob''"]
  from t ne have g: "fst (getClientList ?w1)
            = ''Connected clients ('' @ itoa (card (dom ?m)) @ ''):''
              @ concat (map (\<lambda>k. case ?m k of None \<Rightarrow> [] | Some c \<Rightarrow> ''\<newline>- '' @ nickname c) [1, 2])"
    and h: "fst (getClientList ?w2)
            = ''Connected clients ('' @ itoa (card (dom ?m)) @ ''):''
              @ concat (map (\<lambda>k. case ?m k of None \<Rightarrow> [] | Some c \<Rightarrow> ''\<newline>- '' @ nickname c) [2, 1])"
    by blast+
  have g': "fst (getClientList ?w1) = ''Connected clients (2):\<newline>- Alice\<newline>- Bob''"
    unfolding g by (simp add: itoa_2 alice_def bob_def)
  have h': "fst (getClientList ?w2) = ''Connected clients (2):\<newline>- Bob\<newline>- Alice''"
    unfolding h by (simp add: itoa_2 alice_def bob_def)
  from t f1 have k: "clients (snd (kickClient quiet ''Bob'' ?w1)) = ?m(2 := None)"
    by blast
  from t un have u: "clients (snd (kickClient quiet ''Bob'' ?w1)) = clients (snd (kickClient quiet ''Bob'' ?w2))"
    by blast
  from e1 e2 ne f1 g' h' k u show ?thesis by (intro conjI)
qed

section \<open>White space\<close>

lemma find_rune:
  "e \<in> set spaceRunes \<Longrightarrow> find (\<lambda>x. prefix x (e @ rest)) spaceRunes = Some e"
  apply (simp only: spaceRunes_def list.set insert_iff empty_iff)
  apply (elim disjE FalseE)
  apply (simp_all only: find.simps append.simps Cons_prefix_Cons Nil_prefix list.inject
      char.inject simp_thms if_True if_False)
  done

lemma leadingSpace_rune: "e \<in> set spaceRunes \<Longrightarrow> leadingSpace (e @ rest) = length e"
  by (simp add: leadingSpace_def find_rune)

lemma runes_nonempty: "e \<in> set spaceRunes \<Longrightarrow> e \<noteq> []"
  by (auto simp: spaceRunes_def)

lemma leadingSpace_0: "(leadingSpace s = 0) = (\<forall>e \<in> set spaceRunes. \<not> prefix e s)"
proof (cases "find (\<lambda>e. prefix e s) spaceRunes")
  case None
  then have "\<forall>e \<in> set spaceRunes. \<not> prefix e s" by (auto simp: find_None_iff)
  moreover from None have "leadingSpace s = 0" by (simp add: leadingSpace_def)
  ultimately show ?thesis by simp
next
  case (Some e)
  then have "e \<in> set spaceRunes" "prefix e s" by (auto simp: find_Some_iff)
  with Some runes_nonempty[of e] show ?thesis by (auto simp: leadingSpace_def)
qed

lemma trailingSpace_0: "(trailingSpace s = 0) = (\<forall>e \<in> set spaceRunes. \<not> suffix e s)"
proof (cases "find (\<lambda>e. suffix e s) spaceRunes")
  case None
  then have "\<forall>e \<in> set spaceRunes. \<not> suffix e s" by (auto simp: find_None_iff)
  moreover from None have "trailingSpace s = 0" by (simp add: trailingSpace_def)
  ultimately show ?thesis by simp
next
  case (Some e)
  then have "e \<in> set spaceRunes" "suffix e s" by (auto simp: find_Some_iff)
  with Some runes_nonempty[of e] show ?thesis by (auto simp: trailingSpace_def)
qed

lemma leadingSpace_take:
  assumes "leadingSpace s \<noteq> 0"
  shows "take (leadingSpace s) s \<in> set spaceRunes"
proof -
  from assms obtain e where e: "find (\<lambda>e. prefix e s) spaceRunes = Some e"
    by (auto simp: leadingSpace_def split: option.splits)
  then have "e \<in> set spaceRunes" "prefix e s" by (auto simp: find_Some_iff)
  moreover from e have "leadingSpace s = length e" by (simp add: leadingSpace_def)
  ultimately show ?thesis by (auto simp: prefix_def)
qed

lemma trailingSpace_drop:
  assumes "trailingSpace s \<noteq> 0"
  shows "drop (length s - trailingSpace s) s \<in> set spaceRunes"
proof -
  from assms obtain e where e: "find (\<lambda>e. suffix e s) spaceRunes = Some e"
    by (auto simp: trailingSpace_def split: option.splits)
  then have "e \<in> set spaceRunes" "suffix e s" by (auto simp: find_Some_iff)
  moreover from e have "trailingSpace s = length e" by (simp add: trailingSpace_def)
  ultimately show ?thesis by (auto simp: suffix_def)
qed

lemma TrimLeft_parts:
  "\<exists>pre. set pre \<subseteq> set spaceRunes \<and> s = concat pre @ TrimLeft s"
proof (induction s rule: TrimLeft.induct)
  case (1 s)
  show ?case
  proof (cases "leadingSpace s = 0")
    case True
    then have "s = concat [] @ TrimLeft s" by (simp add: TrimLeft.simps)
    then show ?thesis by (intro exI[of _ "[]"]) simp
  next
    case False
    from 1[OF False] obtain pre where pre: "set pre \<subseteq> set spaceRunes"
      "drop (leadingSpace s) s = concat pre @ TrimLeft (drop (leadingSpace s) s)" by blast
    have t: "TrimLeft s = TrimLeft (drop (leadingSpace s) s)"
      using False by (subst TrimLeft.simps) simp
    have "s = take (leadingSpace s) s @ drop (leadingSpace s) s" by simp
    also have "\<dots> = take (leadingSpace s) s @ (concat pre @ TrimLeft (drop (leadingSpace s) s))"
      by (rule arg_cong[where f = "\<lambda>z. take (leadingSpace s) s @ z", OF pre(2)])
    also have "\<dots> = concat (take (leadingSpace s) s # pre) @ TrimLeft s"
      by (simp add: t)
    finally have "s = concat (take (leadingSpace s) s # pre) @ TrimLeft s" .
    moreover have "set (take (leadingSpace s) s # pre) \<subseteq> set spaceRunes"
      using pre(1) leadingSpace_take[OF False] by simp
    ultimately show ?thesis by blast
  qed
qed

lemma TrimRight_parts:
  "\<exists>suf. set suf \<subseteq> set spaceRunes \<and> s = TrimRight s @ concat suf"
proof (induction s rule: TrimRight.induct)
  case (1 s)
  show ?case
  proof (cases "trailingSpace s = 0")
    case True
    then have "s = TrimRight s @ concat []" by (simp add: TrimRight.simps)
    then show ?thesis by (intro exI[of _ "[]"]) simp
  next
    case False
    let ?n = "length s - trailingSpace s"
    from 1[OF False] obtain suf where suf: "set suf \<subseteq> set spaceRunes"
      "take ?n s = TrimRight (take ?n s) @ concat suf" by blast
    have t: "TrimRight s = TrimRight (take ?n s)"
      using False by (subst TrimRight.simps) simp
    have "s = take ?n s @ drop ?n s" by simp
    also have "\<dots> = (TrimRight (take ?n s) @ concat suf) @ drop ?n s"
      by (rule arg_cong[where f = "\<lambda>z. z @ drop ?n s", OF suf(2)])
    also have "\<dots> = TrimRight s @ concat (suf @ [drop ?n s])"
      by (simp add: t)
    finally have "s = TrimRight s @ concat (suf @ [drop ?n s])" .
    moreover have "set (suf @ [drop ?n s]) \<subseteq> set spaceRunes"
      using suf(1) trailingSpace_drop[OF False] by simp
    ultimately show ?thesis by blast
  qed
qed

lemma TrimLeft_no_space: "leadingSpace (TrimLeft s) = 0"
proof (induction s rule: TrimLeft.induct)
  case (1 s)
  show ?case
  proof (cases "leadingSpace s = 0")
    case True
    then show ?thesis by (simp add: TrimLeft.simps)
  next
    case False
    with 1 show ?thesis by (subst TrimLeft.simps) simp
  qed
qed

lemma TrimRight_no_space: "trailingSpace (TrimRight s) = 0"
proof (induction s rule: TrimRight.induct)
  case (1 s)
  show ?case
  proof (cases "trailingSpace s = 0")
    case True
    then show ?thesis by (simp add: TrimRight.simps)
  next
    case False
    with 1 show ?thesis by (subst TrimRight.simps) simp
  qed
qed

lemma TrimRight_keeps_head: "leadingSpace s = 0 \<Longrightarrow> leadingSpace (TrimRight s) = 0"
proof (induction s rule: TrimRight.induct)
  case (1 s)
  show ?case
  proof (cases "trailingSpace s = 0")
    case True
    with 1 show ?thesis by (simp add: TrimRight.simps)
  next
    case False
    have "leadingSpace (take (length s - trailingSpace s) s) = 0"
      using "1.prems" by (auto simp: leadingSpace_0 dest: prefix_order.trans[OF _ take_is_prefix])
    with 1(1)[OF False] False show ?thesis by (subst TrimRight.simps) simp
  qed
qed

lemma TrimLeft_spaces: "set ws \<subseteq> set spaceRunes \<Longrightarrow> TrimLeft (concat ws) = []"
proof (induction ws)
  case Nil
  have "leadingSpace [] = 0" by (auto simp: leadingSpace_0 dest: runes_nonempty)
  then show ?case by (simp add: TrimLeft.simps)
next
  case (Cons e ws)
  then have e: "e \<in> set spaceRunes" by simp
  then have "leadingSpace (e @ concat ws) = length e" by (rule leadingSpace_rune)
  moreover have "length e \<noteq> 0" using runes_nonempty[OF e] by simp
  ultimately have "TrimLeft (e @ concat ws) = TrimLeft (concat ws)"
    by (subst TrimLeft.simps) simp
  with Cons show ?case by simp
qed

lemma TrimRight_Nil: "TrimRight [] = []"
proof -
  have "trailingSpace [] = 0" by (auto simp: trailingSpace_0 dest: runes_nonempty)
  then show ?thesis by (simp add: TrimRight.simps)
qed

lemma TrimSpace_empty_iff:
  "(TrimSpace t = []) = (\<exists>ws. set ws \<subseteq> set spaceRunes \<and> t = concat ws)"
proof
  assume e: "TrimSpace t = []"
  obtain pre where pre: "set pre \<subseteq> set spaceRunes" "t = concat pre @ TrimLeft t"
    using TrimLeft_parts by blast
  obtain suf where suf: "set suf \<subseteq> set spaceRunes" "TrimLeft t = TrimRight (TrimLeft t) @ concat suf"
    using TrimRight_parts by blast
  from e suf(2) have "TrimLeft t = concat suf" by (simp add: TrimSpace_def)
  with pre(2) have "t = concat (pre @ suf)" by simp
  moreover have "set (pre @ suf) \<subseteq> set spaceRunes" using pre(1) suf(1) by simp
  ultimately show "\<exists>ws. set ws \<subseteq> set spaceRunes \<and> t = concat ws" by blast
next
  assume "\<exists>ws. set ws \<subseteq> set spaceRunes \<and> t = concat ws"
  then show "TrimSpace t = []" by (auto simp: TrimSpace_def TrimLeft_spaces TrimRight_Nil)
qed

lemma TrimSpace_parts:
  "\<exists>pre suf. set pre \<subseteq> set spaceRunes \<and> set suf \<subseteq> set spaceRunes
     \<and> t = concat pre @ TrimSpace t @ concat suf"
proof -
  obtain pre where pre: "set pre \<subseteq> set spaceRunes" "t = concat pre @ TrimLeft t"
    using TrimLeft_parts by blast
  obtain suf where suf: "set suf \<subseteq> set spaceRunes" "TrimLeft t = TrimRight (TrimLeft t) @ concat suf"
    using TrimRight_parts by blast
  have "t = concat pre @ (TrimRight (TrimLeft t) @ concat suf)"
    using pre(2) by (rule back_subst[where P = "\<lambda>z. t = concat pre @ z", OF _ suf(2)])
  with pre(1) suf(1) show ?thesis unfolding TrimSpace_def by blast
qed

lemma TrimSpace_ends: "leadingSpace (TrimSpace t) = 0 \<and> trailingSpace (TrimSpace t) = 0"
  by (simp add: TrimSpace_def TrimRight_no_space TrimRight_keeps_head TrimLeft_no_space)

section \<open>The handshake\<close>

lemma printf_fields [simp]:
  "clients (printf line w) = clients w"
  "ords (printf line w) = ords w"
  "out (printf line w) = out w @ [Printf line]"
  by (simp_all add: printf_def)

lemma addClient_fields [simp]:
  "clients (addClient p w) = (clients w)(conn p \<mapsto> p)"
  "ords (addClient p w) = ords w"
  "out (addClient p w) = out w"
  by (simp_all add: addClient_def)

lemma removeClient_fields [simp]:
  "clients (removeClient p w) = (clients w)(conn p := None)"
  "ords (removeClient p w) = ords w"
  "out (removeClient p w) = out w"
  by (simp_all add: removeClient_def)

lemma TrimSpace_Carol: "TrimSpace ''  Carol '' = ''Carol''"
  by code_simp

lemma TrimSpace_blank: "TrimSpace ''   '' = []"
  by code_simp

text \<open>
  C9. When the scanner yields a first line, the participant that \<^verbatim>\<open>handleClient\<close>
  registers under the connection has as nickname that line with its white space trimmed,
  or \<^verbatim>\<open>Anonymous\<close> when nothing is left. The trimmed line is the line without a run of
  white space at its head and another at its end, and has white space at neither end
  itself; nothing is left exactly when the line is empty or white space only.
\<close>

theorem handshake_nickname:
  "nickname (fst (handshake env c (t # ts) w))
     = (if TrimSpace t = [] then ''Anonymous'' else TrimSpace t)
   \<and> conn (fst (handshake env c (t # ts) w)) = c
   \<and> clients (snd (handshake env c (t # ts) w)) c = Some (fst (handshake env c (t # ts) w))
   \<and> (\<exists>pre suf. set pre \<subseteq> set spaceRunes \<and> set suf \<subseteq> set spaceRunes
          \<and> t = concat pre @ TrimSpace t @ concat suf)
   \<and> leadingSpace (TrimSpace t) = 0 \<and> trailingSpace (TrimSpace t) = 0
   \<and> (TrimSpace t = []) = (\<exists>ws. set ws \<subseteq> set spaceRunes \<and> t = concat ws)"
proof -
  have "nickname (fst (handshake env c (t # ts) w))
          = (if TrimSpace t = [] then ''Anonymous'' else TrimSpace t)"
    by (simp add: handshake_def Let_def)
  moreover have "conn (fst (handshake env c (t # ts) w)) = c"
    by (simp add: handshake_def Let_def)
  moreover have "clients (snd (handshake env c (t # ts) w)) c = Some (fst (handshake env c (t # ts) w))"
    by (simp add: handshake_def Let_def)
  ultimately show ?thesis
    using TrimSpace_parts[of t] TrimSpace_ends[of t] TrimSpace_empty_iff[of t] by simp
qed

theorem handshake_nickname_witness:
  "nickname (fst (handshake quiet 3 [''  Carol '']
       \<lparr>clients = [1 \<mapsto> alice], ords = [[3, 1]], out = []\<rparr>)) = ''Carol''
   \<and> nickname (fst (handshake quiet 3 [''   '', ''hello'']
       \<lparr>clients = [1 \<mapsto> alice], ords = [[3, 1]], out = []\<rparr>)) = ''Anonymous''
   \<and> clients (snd (handshake quiet 3 [''   '', ''hello'']
       \<lparr>clients = [1 \<mapsto> alice], ords = [[3, 1]], out = []\<rparr>)) 3
       = Some \<lparr>conn = 3, nickname = ''Anonymous''\<rparr>"
proof -
  let ?w = "\<lparr>clients = [1 \<mapsto> alice], ords = [[3, 1]], out = []\<rparr>"
  note a = handshake_nickname [of quiet 3 "''  Carol ''" "[]" ?w]
  note b = handshake_nickname [of quiet 3 "''   ''" "[''hello'']" ?w]
  from a have 1: "nickname (fst (handshake quiet 3 [''  Carol ''] ?w)) = ''Carol''"
    by (simp add: TrimSpace_Carol)
  from b have 2: "nickname (fst (handshake quiet 3 [''   '', ''hello''] ?w)) = ''Anonymous''"
    and 3: "conn (fst (handshake quiet 3 [''   '', ''hello''] ?w)) = 3"
    and 4: "clients (snd (handshake quiet 3 [''   '', ''hello''] ?w)) 3
            = Some (fst (handshake quiet 3 [''   '', ''hello''] ?w))"
    by (simp_all add: TrimSpace_blank)
  from 2 3 have "fst (handshake quiet 3 [''   '', ''hello''] ?w) = \<lparr>conn = 3, nickname = ''Anonymous''\<rparr>"
    by (cases "fst (handshake quiet 3 [''   '', ''hello''] ?w)") simp
  with 1 2 4 show ?thesis by simp
qed

lemma registry_ok_add: "registry_ok m \<Longrightarrow> registry_ok (m(conn p \<mapsto> p))"
  by (simp add: registry_ok_def)

lemma handshake_eof:
  "handshake env c [] w =
     (\<lparr>conn = c, nickname = []\<rparr>,
      printf (''Client '' @ [] @ '' connected from '' @ remoteAddr env c @ ''\<newline>'')
        (broadcast env ([] @ '' joined the chat'') (Some \<lparr>conn = c, nickname = []\<rparr>)
          (addClient \<lparr>conn = c, nickname = []\<rparr>
            (send env \<lparr>conn = c, nickname = []\<rparr> ''Please enter your nickname:''
              (send env \<lparr>conn = c, nickname = []\<rparr> ''Welcome to the Go Socket Server!'' w)))))"
  by (simp add: handshake_def Let_def)

text \<open>
  C10. When the scanner yields no line at all (end of stream before a nickname), the
  session still registers a participant, whose nickname is the empty string and not
  \<^verbatim>\<open>Anonymous\<close>; every other registered participant is written the join notice with the
  empty name, \<^verbatim>\<open>" joined the chat"\<close>, once (the newcomer only its greeting); and the
  session goes straight on to its end: no message is read, the participant is removed,
  the leave notice is broadcast, and the connection is closed.
\<close>

theorem eof_before_nickname:
  "fst (handshake env c [] w) = \<lparr>conn = c, nickname = []\<rparr>
   \<and> clients (snd (handshake env c [] w)) = (clients w)(c \<mapsto> \<lparr>conn = c, nickname = []\<rparr>)
   \<and> (registry_ok (clients w) \<and> ords w = ord # rest
        \<and> enumerates ord ((clients w)(c \<mapsto> \<lparr>conn = c, nickname = []\<rparr>)) \<longrightarrow>
        (\<forall>k \<in> dom (clients w) - {c}.
           count_list (writes (out (snd (handshake env c [] w)))) (k, '' joined the chat\<newline>'')
           = Suc (count_list (writes (out w)) (k, '' joined the chat\<newline>'')))
        \<and> (\<forall>b. count_list (writes (out (snd (handshake env c [] w)))) (c, b)
             = count_list (writes (out w)) (c, b)
               + (if b = ''Welcome to the Go Socket Server!\<newline>'' then 1 else 0)
               + (if b = ''Please enter your nickname:\<newline>'' then 1 else 0)))
   \<and> handleClient env c [] w =
       (let w1 = snd (handshake env c [] w);
            w3 = removeClient \<lparr>conn = c, nickname = []\<rparr> w1;
            w4 = broadcast env '' left the chat'' None w3;
            w5 = printf ''Client  disconnected\<newline>'' w4
        in w5\<lparr>out := out w5 @ [Close c]\<rparr>)
   \<and> clients (handleClient env c [] w) = (clients w)(c := None)"
proof -
  let ?client = "\<lparr>conn = c, nickname = []\<rparr>"
  let ?w2 = "send env ?client ''Please enter your nickname:''
              (send env ?client ''Welcome to the Go Socket Server!'' w)"
  let ?w3 = "addClient ?client ?w2"
  let ?join = "'' joined the chat''"
  have 1: "fst (handshake env c [] w) = ?client" by (simp add: handshake_eof)
  have 2: "clients (snd (handshake env c [] w)) = (clients w)(c \<mapsto> ?client)"
    by (simp add: handshake_eof)
  have 3: "(\<forall>k \<in> dom (clients w) - {c}.
           count_list (writes (out (snd (handshake env c [] w)))) (k, ?join @ ''\<newline>'')
           = Suc (count_list (writes (out w)) (k, ?join @ ''\<newline>'')))
        \<and> (\<forall>b. count_list (writes (out (snd (handshake env c [] w)))) (c, b)
             = count_list (writes (out w)) (c, b)
               + (if b = ''Welcome to the Go Socket Server!\<newline>'' then 1 else 0)
               + (if b = ''Please enter your nickname:\<newline>'' then 1 else 0))"
    if h: "registry_ok (clients w) \<and> ords w = ord # rest
        \<and> enumerates ord ((clients w)(c \<mapsto> ?client))"
  proof -
    have ok: "registry_ok (clients ?w3)"
      using h registry_ok_add[of "clients w" ?client] by simp
    have or: "ords ?w3 = ord # rest" using h by simp
    have en: "enumerates ord (clients ?w3)" using h by simp
    note bc = broadcast_count[OF ok or en, of env ?join "Some ?client"]
    have out: "out (snd (handshake env c [] w))
               = out (broadcast env ?join (Some ?client) ?w3)
                 @ [Printf (''Client '' @ [] @ '' connected from '' @ remoteAddr env c @ ''\<newline>'')]"
      by (simp add: handshake_eof)
    show ?thesis
      unfolding out by (auto simp: bc)
  qed
  have 4: "handleClient env c [] w =
       (let w1 = snd (handshake env c [] w);
            w3 = removeClient ?client w1;
            w4 = broadcast env '' left the chat'' None w3;
            w5 = printf ''Client  disconnected\<newline>'' w4
        in w5\<lparr>out := out w5 @ [Close c]\<rparr>)"
    by (simp add: handleClient_def handshake_eof Let_def)
  have 5: "clients (handleClient env c [] w) = (clients w)(c := None)"
    unfolding 4 by (simp add: Let_def 2)
  from 1 2 3 4 5 show ?thesis by (intro conjI impI) simp_all
qed

theorem eof_before_nickname_witness:
  "registry_ok [1 \<mapsto> alice, 2 \<mapsto> bob]
   \<and> enumerates [2, 3, 1] ([1 \<mapsto> alice, 2 \<mapsto> bob](3 \<mapsto> \<lparr>conn = 3, nickname = []\<rparr>))
   \<and> (2::nat) \<in> dom [1 \<mapsto> alice, 2 \<mapsto> bob] - {3}
   \<and> count_list (writes (out (snd (handshake quiet 3 []
           \<lparr>clients = [1 \<mapsto> alice, 2 \<mapsto> bob], ords = [[2, 3, 1], [1, 2]], out = []\<rparr>))))
         (2, '' joined the chat\<newline>'') = 1
   \<and> out (handleClient quiet 3 []
          \<lparr>clients = [1 \<mapsto> alice, 2 \<mapsto> bob], ords = [[2, 3, 1], [1, 2]], out = []\<rparr>)
       = [Write 3 ''Welcome to the Go Socket Server!\<newline>'',
          Write 3 ''Please enter your nickname:\<newline>'',
          Write 2 '' joined the chat\<newline>'',
          Write 1 '' joined the chat\<newline>'',
          Printf ''Client  connected from 10.0.0.1:5000\<newline>'',
          Write 1 '' left the chat\<newline>'',
          Write 2 '' left the chat\<newline>'',
          Printf ''Client  disconnected\<newline>'',
          Close 3]
   \<and> clients (handleClient quiet 3 []
          \<lparr>clients = [1 \<mapsto> alice, 2 \<mapsto> bob], ords = [[2, 3, 1], [1, 2]], out = []\<rparr>)
       = [1 \<mapsto> alice, 2 \<mapsto> bob](3 := None)"
proof -
  let ?w = "\<lparr>clients = [1 \<mapsto> alice, 2 \<mapsto> bob], ords = [[2, 3, 1], [1, 2]], out = []\<rparr>"
  have ok: "registry_ok (clients ?w)" by (simp add: registry_ok_def alice_def bob_def)
  have or: "ords ?w = [2, 3, 1] # [[1, 2]]" by simp
  have en: "enumerates [2, 3, 1] ((clients ?w)(3 \<mapsto> \<lparr>conn = 3, nickname = []\<rparr>))"
    by (auto simp: enumerates_def)
  have mem: "(2::nat) \<in> dom (clients ?w) - {3}" by simp
  note t = eof_before_nickname [of quiet 3 ?w "[2, 3, 1]" "[[1, 2]]"]
  from t ok or en mem
  have 1: "count_list (writes (out (snd (handshake quiet 3 [] ?w)))) (2, '' joined the chat\<newline>'')
           = Suc (count_list (writes (out ?w)) (2, '' joined the chat\<newline>''))"
    by blast
  from t have 2: "clients (handleClient quiet 3 [] ?w) = (clients ?w)(3 := None)"
    by blast
  have 3: "out (handleClient quiet 3 [] ?w)
       = [Write 3 ''Welcome to the Go Socket Server!\<newline>'',
          Write 3 ''Please enter your nickname:\<newline>'',
          Write 2 '' joined the chat\<newline>'',
          Write 1 '' joined the chat\<newline>'',
          Printf ''Client  connected from 10.0.0.1:5000\<newline>'',
          Write 1 '' left the chat\<newline>'',
          Write 2 '' left the chat\<newline>'',
          Printf ''Client  disconnected\<newline>'',
          Close 3]"
    by (simp add: handleClient_def handshake_def Let_def broadcast_def rangeOrder_def
        send_def sendEvents_def printf_def addClient_def removeClient_def
        quiet_def alice_def bob_def)
  from ok en mem 1 2 3 show ?thesis by simp
qed

end
